theory Spec2Isabelle
  imports Complex_Main
begin

section \<open>Data model of \<open>src/index.ts\<close>\<close>

text \<open>
  A \<open>Node\<close> is a string. A \<open>Link\<close> has the fields \<open>from\<close>, \<open>to\<close> and \<open>cost\<close>
  (suffixed here, \<open>from\<close> being a keyword). JavaScript numbers are idealised as
  real numbers: no rounding, no \<open>NaN\<close>, no infinities. Sums of natural numbers that
  stay below \<open>2^53\<close> are exact in the doubles of the code as well; the statements
  about the value of a cost are made for such costs. The optional fields \<open>cost\<close> and
  \<open>path\<close> of a \<open>Path\<close> are options: \<open>None\<close> is an absent field.
\<close>

type_synonym Node = string

record Link =
  from_l :: Node
  to_l :: Node
  cost_l :: real

record Path =
  found :: bool
  iterations :: nat
  cost :: "real option"
  path :: "Link list option"

text \<open>
  How an invocation of \<open>findPath\<close> can fail: \<open>Raised e\<close> is an error \<open>e\<close> thrown by
  one of the two collaborators; \<open>TypeError\<close> is what reading \<open>previousLink.from\<close> of an
  \<open>undefined\<close> link throws in the path reconstruction; \<open>UndefinedCost\<close> stands for
  the addition \<open>linkCosts[best] + link.cost\<close> on a missing \<open>linkCosts[best]\<close>, which in
  JavaScript yields \<open>NaN\<close> and has no counterpart among the reals (it is shown below
  never to arise).
\<close>

datatype 'e failure = Raised 'e | TypeError | UndefinedCost

text \<open>
  The class \<open>AStar\<close> holds the two collaborators. Awaiting a collaborator is a
  call that either gives its value (\<open>Inr\<close>) or throws (\<open>Inl\<close>). The constructor
  replaces a missing heuristic by the constant-zero function.
\<close>

record 'e AStar =
  calculateLinksForNode :: "Node \<Rightarrow> 'e + Link list"
  calculateHeuristicCostToTraverseLink :: "Node \<Rightarrow> Node \<Rightarrow> 'e + real"

definition new_AStar ::
  "(Node \<Rightarrow> 'e + Link list) \<Rightarrow> (Node \<Rightarrow> Node \<Rightarrow> 'e + real) option \<Rightarrow> 'e AStar" where
  "new_AStar links heuristic =
     \<lparr>calculateLinksForNode = links,
      calculateHeuristicCostToTraverseLink =
        (case heuristic of None \<Rightarrow> (\<lambda>_ _. Inr 0) | Some h \<Rightarrow> h)\<rparr>"

text \<open>
  The local variables of \<open>findPath\<close>. The three objects used as dictionaries are
  maps from keys to values; \<open>cameFrom\<close> maps a key to \<open>None\<close> for \<open>null\<close>. Every
  string is an ordinary key in this section: this is what the code does on every key
  but \<open>__proto__\<close> and \<open>hasOwnProperty\<close>, which JavaScript objects treat
  specially; a second model, further down, follows the code on these two keys too. A
  JavaScript \<open>Set\<close> iterates in insertion order, so \<open>open\<close> and \<open>closed\<close> are lists
  without duplicates, in insertion order.
\<close>

record search_state =
  cameFrom :: "Node \<rightharpoonup> Link option"
  totalCosts :: "Node \<rightharpoonup> real"
  linkCosts :: "Node \<rightharpoonup> real"
  open_set :: "Node list"
  closed_set :: "Node list"
  iterations_st :: nat

definition set_add :: "'a list \<Rightarrow> 'a \<Rightarrow> 'a list" where
  "set_add xs x = (if x \<in> set xs then xs else xs @ [x])"

definition set_delete :: "'a list \<Rightarrow> 'a \<Rightarrow> 'a list" where
  "set_delete xs x = removeAll x xs"

definition initial_state :: "Node \<Rightarrow> search_state" where
  "initial_state start =
     \<lparr>cameFrom = [start \<mapsto> None], totalCosts = [start \<mapsto> 0], linkCosts = [start \<mapsto> 0],
      open_set = [start], closed_set = [], iterations_st = 1\<rparr>"

section \<open>The search loop of \<open>findPath\<close>\<close>

text \<open>
  The comparison \<open><\<close> of two dictionary reads: a read of a missing key is
  \<open>undefined\<close>, and every comparison with \<open>undefined\<close> is false.
\<close>

definition js_less :: "real option \<Rightarrow> real option \<Rightarrow> bool" where
  "js_less a b =
     (case a of None \<Rightarrow> False | Some x \<Rightarrow> (case b of None \<Rightarrow> False | Some y \<Rightarrow> x < y))"

text \<open>The scan of \<open>open\<close> for the best candidate (lines 106 to 113).\<close>

fun find_best :: "(Node \<rightharpoonup> real) \<Rightarrow> Node option \<Rightarrow> Node list \<Rightarrow> Node option" where
  "find_best tc best [] = best"
| "find_best tc best (openNode # rest) =
     find_best tc
       (case best of
          None \<Rightarrow> Some openNode
        | Some b \<Rightarrow> if js_less (tc openNode) (tc b) then Some openNode else Some b)
       rest"

text \<open>The body of the loop over the links of \<open>best\<close> (lines 130 to 142).\<close>

definition relax ::
  "'e AStar \<Rightarrow> Node \<Rightarrow> Node \<Rightarrow> search_state \<Rightarrow> Link \<Rightarrow> 'e failure + search_state" where
  "relax A start best s link =
     (if to_l link \<in> set (closed_set s) then Inr s
      else
        (case linkCosts s best of
           None \<Rightarrow> Inl UndefinedCost
         | Some bestLinkCost \<Rightarrow>
             (let newLinkCost = bestLinkCost + cost_l link;
                  linkCostToNextNodeExists = (linkCosts s (to_l link) \<noteq> None)
              in if \<not> linkCostToNextNodeExists \<or> js_less (Some newLinkCost) (linkCosts s (to_l link))
                 then
                   (case calculateHeuristicCostToTraverseLink A start (to_l link) of
                      Inl e \<Rightarrow> Inl (Raised e)
                    | Inr h \<Rightarrow>
                        Inr (s\<lparr>linkCosts := (linkCosts s)(to_l link \<mapsto> newLinkCost),
                               totalCosts := (totalCosts s)(to_l link \<mapsto> newLinkCost + h),
                               cameFrom := (cameFrom s)(to_l link \<mapsto> Some link),
                               open_set := set_add (open_set s) (to_l link)\<rparr>))
                 else Inr (s\<lparr>open_set := set_add (open_set s) (to_l link)\<rparr>))))"

fun relax_links ::
  "'e AStar \<Rightarrow> Node \<Rightarrow> Node \<Rightarrow> search_state \<Rightarrow> Link list \<Rightarrow> 'e failure + search_state" where
  "relax_links A start best s [] = Inr s"
| "relax_links A start best s (link # links) =
     (case relax A start best s link of
        Inl e \<Rightarrow> Inl e
      | Inr s' \<Rightarrow> relax_links A start best s' links)"

text \<open>
  One pass through the body of \<open>while (true)\<close> (lines 106 to 148): it returns the
  not-found result with the iteration count, breaks out with \<open>best\<close> being the goal,
  throws, or goes on with the next state.
\<close>

datatype 'e step = NotFound nat | Break Node search_state | Throw "'e failure" | Next search_state

definition iteration :: "'e AStar \<Rightarrow> Node \<Rightarrow> Node \<Rightarrow> search_state \<Rightarrow> 'e step" where
  "iteration A start goal s =
     (case find_best (totalCosts s) None (open_set s) of
        None \<Rightarrow> NotFound (iterations_st s)
      | Some best \<Rightarrow>
          if goal = best then Break best s
          else
            (case calculateLinksForNode A best of
               Inl e \<Rightarrow> Throw (Raised e)
             | Inr links \<Rightarrow>
                 (case relax_links A start best s links of
                    Inl e \<Rightarrow> Throw e
                  | Inr s' \<Rightarrow>
                      Next (s'\<lparr>closed_set := set_add (closed_set s') best,
                               open_set := set_delete (open_set s') best,
                               iterations_st := iterations_st s' + 1\<rparr>))))"

text \<open>
  The loop itself may run forever (a collaborator can describe an infinite graph), so
  it is a partial function: \<open>None\<close> is a run that never leaves the loop.
\<close>

partial_function (option) search_loop ::
  "'e AStar \<Rightarrow> Node \<Rightarrow> Node \<Rightarrow> search_state \<Rightarrow> 'e step option" where
  "search_loop A start goal s =
     (case iteration A start goal s of
        Next s' \<Rightarrow> search_loop A start goal s'
      | NotFound n \<Rightarrow> Some (NotFound n)
      | Break best s' \<Rightarrow> Some (Break best s')
      | Throw e \<Rightarrow> Some (Throw e))"

declare search_loop.simps [code]

text \<open>
  The path reconstruction (lines 152 to 155). \<open>previousLink\<close> is a read of
  \<open>cameFrom\<close>: \<open>None\<close> is \<open>undefined\<close> (the loop condition \<open>!== null\<close> holds, and the
  next read of \<open>previousLink.from\<close> throws), \<open>Some None\<close> is \<open>null\<close>. The walk may
  go round a cycle of \<open>cameFrom\<close> forever, so it is a partial function as well.
\<close>

partial_function (option) trace_back ::
  "(Node \<rightharpoonup> Link option) \<Rightarrow> Link option option \<Rightarrow> Link list \<Rightarrow> ('e failure + Link list) option" where
  "trace_back cf previousLink p =
     (case previousLink of
        None \<Rightarrow> Some (Inl TypeError)
      | Some None \<Rightarrow> Some (Inr p)
      | Some (Some link) \<Rightarrow> trace_back cf (cf (from_l link)) (link # p))"

declare trace_back.simps [code]

text \<open>
  \<open>findPath\<close>: \<open>None\<close> when the invocation never returns, \<open>Some (Inl e)\<close> when it
  throws, \<open>Some (Inr p)\<close> when it returns the \<open>Path\<close> \<open>p\<close>.
\<close>

definition findPath :: "'e AStar \<Rightarrow> Node \<Rightarrow> Node \<Rightarrow> ('e failure + Path) option" where
  "findPath A start goal =
     (case search_loop A start goal (initial_state start) of
        None \<Rightarrow> None
      | Some (Next s) \<Rightarrow> None
      | Some (Throw e) \<Rightarrow> Some (Inl e)
      | Some (NotFound n) \<Rightarrow> Some (Inr \<lparr>found = False, iterations = n, cost = None, path = None\<rparr>)
      | Some (Break best s) \<Rightarrow>
          (case trace_back (cameFrom s) (cameFrom s best) [] of
             None \<Rightarrow> None
           | Some (Inl e) \<Rightarrow> Some (Inl e)
           | Some (Inr p) \<Rightarrow>
               Some (Inr \<lparr>found = True, iterations = iterations_st s,
                          cost = linkCosts s best, path = Some p\<rparr>)))"

section \<open>The dictionaries as JavaScript objects\<close>

text \<open>
  The definitions above treat every string as an ordinary key of the three
  dictionaries. The code uses plain objects, and two keys are special there. An
  assignment to the key \<open>__proto__\<close> goes to the prototype accessor: it creates no
  entry; a number is ignored, and \<open>null\<close> or a link becomes the prototype of the
  object. An entry under the key \<open>hasOwnProperty\<close> shadows the method that line 134
  calls, and the call throws. The definitions of this section follow the code on
  these keys as well.

  A failure is an error raised by a collaborator, a \<open>TypeError\<close>, or \<open>Unmodelled\<close>:
  the code goes on with values the model has no counterpart for (a cost that is a
  string or \<open>NaN\<close>, a path element that is not a link), and the model follows it no
  further.
\<close>

datatype 'e js_failure = JsRaised 'e | JsTypeError | Unmodelled

text \<open>
  The \<open>cost\<close> field of a result is a number, or the value that a read of a key without
  an entry inherits from \<open>Object.prototype\<close> (for the key \<open>__proto__\<close>, that object
  itself).
\<close>

datatype cost_value = Number real | InheritedValue string

record JsPath =
  found_js :: bool
  iterations_js :: nat
  cost_js :: "cost_value option"
  path_js :: "Link list option"

text \<open>
  The prototype of the object \<open>cameFrom\<close>: \<open>Object.prototype\<close> at first, \<open>null\<close> or a
  link after an assignment to \<open>cameFrom['__proto__']\<close>. The objects \<open>linkCosts\<close> and
  \<open>totalCosts\<close> keep their prototype, as only numbers are assigned to them.
\<close>

datatype proto = ObjectProto | NullProto | LinkProto Link

record js_state =
  js_cameFrom :: "Node \<rightharpoonup> Link option"
  js_proto :: proto
  js_totalCosts :: "Node \<rightharpoonup> real"
  js_linkCosts :: "Node \<rightharpoonup> real"
  js_open :: "Node list"
  js_closed :: "Node list"
  js_iterations :: nat

text \<open>
  The property names of \<open>Object.prototype\<close> and of a link.
\<close>

definition object_prototype_keys :: "string list" where
  "object_prototype_keys =
     [''constructor'', ''__defineGetter__'', ''__defineSetter__'', ''hasOwnProperty'',
      ''__lookupGetter__'', ''__lookupSetter__'', ''isPrototypeOf'', ''propertyIsEnumerable'',
      ''toString'', ''valueOf'', ''__proto__'', ''toLocaleString'']"

definition link_keys :: "string list" where
  "link_keys = [''from'', ''to'', ''cost'']"

text \<open>
  \<open>linkCosts[k] = v\<close> and \<open>totalCosts[k] = v\<close> for a number \<open>v\<close>; the call
  \<open>linkCosts.hasOwnProperty(k)\<close>; the read of \<open>linkCosts[best]\<close> for the result.
\<close>

definition number_write :: "(Node \<rightharpoonup> real) \<Rightarrow> Node \<Rightarrow> real \<Rightarrow> (Node \<rightharpoonup> real)" where
  "number_write m k v = (if k = ''__proto__'' then m else m(k \<mapsto> v))"

definition has_own_property :: "(Node \<rightharpoonup> real) \<Rightarrow> Node \<Rightarrow> 'e js_failure + bool" where
  "has_own_property m k =
     (if m ''hasOwnProperty'' \<noteq> None then Inl JsTypeError else Inr (m k \<noteq> None))"

definition cost_read :: "(Node \<rightharpoonup> real) \<Rightarrow> Node \<Rightarrow> cost_value option" where
  "cost_read m k =
     (case m k of
        Some v \<Rightarrow> Some (Number v)
      | None \<Rightarrow> if k \<in> set object_prototype_keys then Some (InheritedValue k) else None)"

text \<open>
  \<open>cameFrom[k] = v\<close>. The accessor \<open>__proto__\<close> is inherited from
  \<open>Object.prototype\<close>, so it is out of reach once the prototype is \<open>null\<close>; an
  assignment then creates an entry like any other.
\<close>

definition cameFrom_write ::
  "(Node \<rightharpoonup> Link option) \<times> proto \<Rightarrow> Node \<Rightarrow> Link option \<Rightarrow> (Node \<rightharpoonup> Link option) \<times> proto" where
  "cameFrom_write cp k v =
     (case cp of (cf, p) \<Rightarrow>
        if k = ''__proto__'' \<and> cf k = None \<and> p \<noteq> NullProto
        then (cf, (case v of None \<Rightarrow> NullProto | Some l \<Rightarrow> LinkProto l))
        else (cf(k \<mapsto> v), p))"

text \<open>
  What a read of \<open>cameFrom[k]\<close> gives: an entry (\<open>null\<close> or a link), \<open>undefined\<close>, the
  prototype itself for the key \<open>__proto__\<close>, or another inherited value.
\<close>

datatype read = Undefined | Null | ALink Link | Inherited string

definition cameFrom_read :: "(Node \<rightharpoonup> Link option) \<Rightarrow> proto \<Rightarrow> Node \<Rightarrow> read" where
  "cameFrom_read cf p k =
     (case cf k of
        Some None \<Rightarrow> Null
      | Some (Some l) \<Rightarrow> ALink l
      | None \<Rightarrow>
          (case p of
             NullProto \<Rightarrow> Undefined
           | ObjectProto \<Rightarrow> if k \<in> set object_prototype_keys then Inherited k else Undefined
           | LinkProto l \<Rightarrow>
               if k = ''__proto__'' then ALink l
               else if k \<in> set link_keys \<or> k \<in> set object_prototype_keys then Inherited k
               else Undefined))"

text \<open>
  Lines 96 to 101.
\<close>

definition initial_js :: "Node \<Rightarrow> js_state" where
  "initial_js start =
     (case cameFrom_write (Map.empty, ObjectProto) start None of (cf, p) \<Rightarrow>
        \<lparr>js_cameFrom = cf, js_proto = p,
         js_totalCosts = number_write Map.empty start 0,
         js_linkCosts = number_write Map.empty start 0,
         js_open = [start], js_closed = [], js_iterations = 1\<rparr>)"

text \<open>
  The body of the loop over the links (lines 130 to 142). \<open>bestLinkCost\<close> is \<open>None\<close> when
  the read of \<open>linkCosts[best]\<close> is not a number; \<open>newLinkCost\<close> is then \<open>NaN\<close> or a
  string, every comparison with it is false, and storing it under an ordinary key is
  where the model stops.
\<close>

definition store_js :: "js_state \<Rightarrow> Link \<Rightarrow> js_state" where
  "store_js s link =
     (case cameFrom_write (js_cameFrom s, js_proto s) (to_l link) (Some link) of (cf, p) \<Rightarrow>
        s\<lparr>js_cameFrom := cf, js_proto := p, js_open := set_add (js_open s) (to_l link)\<rparr>)"

definition relax_js ::
  "'e AStar \<Rightarrow> Node \<Rightarrow> Node \<Rightarrow> js_state \<Rightarrow> Link \<Rightarrow> 'e js_failure + js_state" where
  "relax_js A start best s link =
     (if to_l link \<in> set (js_closed s) then Inr s
      else
        (case has_own_property (js_linkCosts s) (to_l link) of
           Inl e \<Rightarrow> Inl e
         | Inr linkCostToNextNodeExists \<Rightarrow>
             (case js_linkCosts s best of
                Some bestLinkCost \<Rightarrow>
                  (let newLinkCost = bestLinkCost + cost_l link
                   in if \<not> linkCostToNextNodeExists \<or>
                         js_less (Some newLinkCost) (js_linkCosts s (to_l link))
                      then
                        (case calculateHeuristicCostToTraverseLink A start (to_l link) of
                           Inl e \<Rightarrow> Inl (JsRaised e)
                         | Inr h \<Rightarrow>
                             Inr (store_js
                               (s\<lparr>js_linkCosts := number_write (js_linkCosts s) (to_l link) newLinkCost,
                                  js_totalCosts :=
                                    number_write (js_totalCosts s) (to_l link) (newLinkCost + h)\<rparr>)
                               link))
                      else Inr (s\<lparr>js_open := set_add (js_open s) (to_l link)\<rparr>))
              | None \<Rightarrow>
                  if linkCostToNextNodeExists
                  then Inr (s\<lparr>js_open := set_add (js_open s) (to_l link)\<rparr>)
                  else if to_l link = ''__proto__''
                  then
                    (case calculateHeuristicCostToTraverseLink A start (to_l link) of
                       Inl e \<Rightarrow> Inl (JsRaised e)
                     | Inr h \<Rightarrow> Inr (store_js s link))
                  else Inl Unmodelled)))"

fun relax_links_js ::
  "'e AStar \<Rightarrow> Node \<Rightarrow> Node \<Rightarrow> js_state \<Rightarrow> Link list \<Rightarrow> 'e js_failure + js_state" where
  "relax_links_js A start best s [] = Inr s"
| "relax_links_js A start best s (link # links) =
     (case relax_js A start best s link of
        Inl e \<Rightarrow> Inl e
      | Inr s' \<Rightarrow> relax_links_js A start best s' links)"

text \<open>
  One pass through the loop body, the loop, the path reconstruction and \<open>findPath\<close>,
  as in the previous section. The scan \<open>find_best\<close> is the same: a read of
  \<open>totalCosts\<close> that finds no entry gives a value that is not a number, and the
  comparison is false.
\<close>

datatype 'e js_step =
  JsNotFound nat | JsBreak Node js_state | JsThrow "'e js_failure" | JsNext js_state

definition iteration_js :: "'e AStar \<Rightarrow> Node \<Rightarrow> Node \<Rightarrow> js_state \<Rightarrow> 'e js_step" where
  "iteration_js A start goal s =
     (case find_best (js_totalCosts s) None (js_open s) of
        None \<Rightarrow> JsNotFound (js_iterations s)
      | Some best \<Rightarrow>
          if goal = best then JsBreak best s
          else
            (case calculateLinksForNode A best of
               Inl e \<Rightarrow> JsThrow (JsRaised e)
             | Inr links \<Rightarrow>
                 (case relax_links_js A start best s links of
                    Inl e \<Rightarrow> JsThrow e
                  | Inr s' \<Rightarrow>
                      JsNext (s'\<lparr>js_closed := set_add (js_closed s') best,
                                 js_open := set_delete (js_open s') best,
                                 js_iterations := js_iterations s' + 1\<rparr>))))"

partial_function (option) search_loop_js ::
  "'e AStar \<Rightarrow> Node \<Rightarrow> Node \<Rightarrow> js_state \<Rightarrow> 'e js_step option" where
  "search_loop_js A start goal s =
     (case iteration_js A start goal s of
        JsNext s' \<Rightarrow> search_loop_js A start goal s'
      | JsNotFound n \<Rightarrow> Some (JsNotFound n)
      | JsBreak best s' \<Rightarrow> Some (JsBreak best s')
      | JsThrow e \<Rightarrow> Some (JsThrow e))"

declare search_loop_js.simps [code]

partial_function (option) trace_back_js ::
  "(Node \<rightharpoonup> Link option) \<Rightarrow> proto \<Rightarrow> read \<Rightarrow> Link list \<Rightarrow> ('e js_failure + Link list) option" where
  "trace_back_js cf p previousLink ls =
     (case previousLink of
        Null \<Rightarrow> Some (Inr ls)
      | Undefined \<Rightarrow> Some (Inl JsTypeError)
      | ALink link \<Rightarrow> trace_back_js cf p (cameFrom_read cf p (from_l link)) (link # ls)
      | Inherited k \<Rightarrow> Some (Inl Unmodelled))"

declare trace_back_js.simps [code]

definition findPath_js :: "'e AStar \<Rightarrow> Node \<Rightarrow> Node \<Rightarrow> ('e js_failure + JsPath) option" where
  "findPath_js A start goal =
     (case search_loop_js A start goal (initial_js start) of
        None \<Rightarrow> None
      | Some (JsNext s) \<Rightarrow> None
      | Some (JsThrow e) \<Rightarrow> Some (Inl e)
      | Some (JsNotFound n) \<Rightarrow>
          Some (Inr \<lparr>found_js = False, iterations_js = n, cost_js = None, path_js = None\<rparr>)
      | Some (JsBreak best s) \<Rightarrow>
          (case trace_back_js (js_cameFrom s) (js_proto s)
                  (cameFrom_read (js_cameFrom s) (js_proto s) best) [] of
             None \<Rightarrow> None
           | Some (Inl e) \<Rightarrow> Some (Inl e)
           | Some (Inr p) \<Rightarrow>
               Some (Inr \<lparr>found_js = True, iterations_js = js_iterations s,
                          cost_js = cost_read (js_linkCosts s) best, path_js = Some p\<rparr>)))"

section \<open>Executions, graphs and the examples of the test suite\<close>

text \<open>
  The states at the head of the loop during an execution of \<open>findPath\<close>: the
  initial state, and every state that one more pass through the loop body leads to.
\<close>

inductive visited :: "'e AStar \<Rightarrow> Node \<Rightarrow> Node \<Rightarrow> search_state \<Rightarrow> bool"
  for A :: "'e AStar" and start :: Node and goal :: Node where
  visited_initial: "visited A start goal (initial_state start)"
| visited_next: "visited A start goal s \<Longrightarrow> iteration A start goal s = Next s' \<Longrightarrow>
     visited A start goal s'"

text \<open>
  The test suite builds its expander from a list of links:
  \<open>test.links.filter((link) => link.from === node)\<close>.
\<close>

definition graph_links :: "Link list \<Rightarrow> Node \<Rightarrow> unit + Link list" where
  "graph_links ls node = Inr (filter (\<lambda>link. from_l link = node) ls)"

definition mk_link :: "Node \<Rightarrow> Node \<Rightarrow> real \<Rightarrow> Link" where
  "mk_link a b c = \<lparr>from_l = a, to_l = b, cost_l = c\<rparr>"

text \<open>One pass through the loop body leads from \<open>s\<close> to \<open>s'\<close>.\<close>

definition next_state :: "'e AStar \<Rightarrow> Node \<Rightarrow> Node \<Rightarrow> search_state \<Rightarrow> search_state \<Rightarrow> bool" where
  "next_state A start goal s s' \<longleftrightarrow> iteration A start goal s = Next s'"

text \<open>
  The bookkeeping invariant of the loop: \<open>open\<close> and \<open>closed\<close> are disjoint, and the
  three dictionaries have entries exactly for the nodes of \<open>open\<close> and \<open>closed\<close>.
\<close>

definition bookkeeping :: "search_state \<Rightarrow> bool" where
  "bookkeeping s \<longleftrightarrow>
     set (open_set s) \<inter> set (closed_set s) = {} \<and>
     dom (linkCosts s) = set (open_set s) \<union> set (closed_set s) \<and>
     dom (totalCosts s) = dom (linkCosts s) \<and>
     dom (cameFrom s) = dom (linkCosts s)"

text \<open>The three dictionary entries of node \<open>n\<close> are the same in \<open>s\<close> and \<open>s'\<close>.\<close>

definition same_entries :: "search_state \<Rightarrow> search_state \<Rightarrow> Node \<Rightarrow> bool" where
  "same_entries s s' n \<longleftrightarrow>
     linkCosts s' n = linkCosts s n \<and> totalCosts s' n = totalCosts s n \<and>
     cameFrom s' n = cameFrom s n"

text \<open>
  The graph that the expander describes: \<open>l\<close> is one of the links returned for \<open>n\<close>.
  A path from \<open>u\<close> to \<open>v\<close> is a sequence of such links, each starting where the
  previous one ends; its cost is the sum of the \<open>cost\<close> fields.
\<close>

definition out_link :: "'e AStar \<Rightarrow> Node \<Rightarrow> Link \<Rightarrow> bool" where
  "out_link A n l \<longleftrightarrow> (case calculateLinksForNode A n of Inl e \<Rightarrow> False | Inr ls \<Rightarrow> l \<in> set ls)"

fun is_path :: "'e AStar \<Rightarrow> Node \<Rightarrow> Link list \<Rightarrow> Node \<Rightarrow> bool" where
  "is_path A u [] v \<longleftrightarrow> u = v"
| "is_path A u (l # ls) v \<longleftrightarrow> out_link A u l \<and> from_l l = u \<and> is_path A (to_l l) ls v"

definition path_cost :: "Link list \<Rightarrow> real" where
  "path_cost ls = sum_list (map cost_l ls)"

text \<open>
  Conditions on the expander: the \<open>from\<close> field of every returned link is the queried
  node; no link from a node to itself has a negative cost.
\<close>

definition links_from_queried :: "'e AStar \<Rightarrow> bool" where
  "links_from_queried A \<longleftrightarrow> (\<forall>n l. out_link A n l \<longrightarrow> from_l l = n)"

definition no_negative_self_link :: "'e AStar \<Rightarrow> bool" where
  "no_negative_self_link A \<longleftrightarrow> (\<forall>n l. out_link A n l \<longrightarrow> to_l l = n \<longrightarrow> 0 \<le> cost_l l)"

text \<open>
  The chain of \<open>cameFrom\<close> followed backward from \<open>n\<close> consists of defined entries and
  ends at the \<open>null\<close> entry of \<open>start\<close>; \<open>ls\<close> is the list of its links, from the start
  to \<open>n\<close>.
\<close>

inductive chain_to_start :: "(Node \<rightharpoonup> Link option) \<Rightarrow> Node \<Rightarrow> Node \<Rightarrow> Link list \<Rightarrow> bool"
  for cf :: "Node \<rightharpoonup> Link option" and start :: Node where
  chain_null: "cf start = Some None \<Longrightarrow> chain_to_start cf start start []"
| chain_link: "cf n = Some (Some l) \<Longrightarrow> chain_to_start cf start (from_l l) ls \<Longrightarrow>
     chain_to_start cf start n (ls @ [l])"

text \<open>
  The invariant behind the path reconstruction: the chain from \<open>n\<close> runs through
  nodes of \<open>C\<close> (the closed nodes, and the node being expanded), its links are links of
  the graph, and the recorded cost of \<open>n\<close> is the cost of the chain.
\<close>

inductive deriv ::
  "'e AStar \<Rightarrow> Node \<Rightarrow> (Node \<rightharpoonup> Link option) \<Rightarrow> (Node \<rightharpoonup> real) \<Rightarrow> Node set \<Rightarrow> Node \<Rightarrow> Link list \<Rightarrow> bool"
  for A :: "'e AStar" and start :: Node and cf :: "Node \<rightharpoonup> Link option"
    and lc :: "Node \<rightharpoonup> real" and C :: "Node set" where
  deriv_start: "cf start = Some None \<Longrightarrow> lc start = Some 0 \<Longrightarrow> deriv A start cf lc C start []"
| deriv_link: "cf n = Some (Some l) \<Longrightarrow> to_l l = n \<Longrightarrow> from_l l \<in> C \<Longrightarrow> out_link A (from_l l) l \<Longrightarrow>
     deriv A start cf lc C (from_l l) ls \<Longrightarrow> lc n = Some (path_cost ls + cost_l l) \<Longrightarrow>
     deriv A start cf lc C n (ls @ [l])"

definition derivable :: "'e AStar \<Rightarrow> Node \<Rightarrow> search_state \<Rightarrow> Node set \<Rightarrow> bool" where
  "derivable A start s C \<longleftrightarrow>
     (\<forall>n \<in> dom (cameFrom s). \<exists>ls. deriv A start (cameFrom s) (linkCosts s) C n ls)"

text \<open>The links that the expander returns only mention nodes of \<open>N\<close>.\<close>

definition links_within :: "'e AStar \<Rightarrow> Node set \<Rightarrow> bool" where
  "links_within A N \<longleftrightarrow> (\<forall>n l. out_link A n l \<longrightarrow> from_l l \<in> N \<and> to_l l \<in> N)"

text \<open>
  The value of the heuristic for \<open>n\<close>, as \<open>findPath\<close> calls it: on \<open>start\<close> and \<open>n\<close>.
  A heuristic is consistent when it never fails and, along every link, drops by no
  more than the cost of the link.
\<close>

definition heuristic_value :: "'e AStar \<Rightarrow> Node \<Rightarrow> Node \<Rightarrow> real" where
  "heuristic_value A start n =
     (case calculateHeuristicCostToTraverseLink A start n of Inl e \<Rightarrow> 0 | Inr v \<Rightarrow> v)"

definition consistent_heuristic :: "'e AStar \<Rightarrow> Node \<Rightarrow> bool" where
  "consistent_heuristic A start \<longleftrightarrow>
     (\<forall>n. \<exists>v. calculateHeuristicCostToTraverseLink A start n = Inr v) \<and>
     (\<forall>n l. out_link A n l \<longrightarrow>
        heuristic_value A start n \<le> cost_l l + heuristic_value A start (to_l l))"

text \<open>No link has a negative cost; the expander never fails.\<close>

definition nonnegative_costs :: "'e AStar \<Rightarrow> bool" where
  "nonnegative_costs A \<longleftrightarrow> (\<forall>n l. out_link A n l \<longrightarrow> 0 \<le> cost_l l)"

definition expander_total :: "'e AStar \<Rightarrow> bool" where
  "expander_total A \<longleftrightarrow> (\<forall>n. \<exists>ls. calculateLinksForNode A n = Inr ls)"

text \<open>
  An admissible heuristic: it never fails, is never negative, and never overestimates,
  neither the cost from a node to the goal (the way \<open>findPath\<close> uses it, called on
  \<open>start\<close> and the node) nor the cost between its two arguments.
\<close>

definition admissible_heuristic :: "'e AStar \<Rightarrow> Node \<Rightarrow> Node \<Rightarrow> bool" where
  "admissible_heuristic A start goal \<longleftrightarrow>
     (\<forall>x y. \<exists>v. calculateHeuristicCostToTraverseLink A x y = Inr v \<and> 0 \<le> v) \<and>
     (\<forall>n ls. is_path A n ls goal \<longrightarrow> heuristic_value A start n \<le> path_cost ls) \<and>
     (\<forall>x y ls. is_path A x ls y \<longrightarrow> heuristic_value A x y \<le> path_cost ls)"

text \<open>
  The invariant behind optimality: \<open>totalCosts\<close> is \<open>linkCosts\<close> plus the heuristic;
  the recorded cost of every node of \<open>C\<close> is the least cost of a path from the start;
  every link of a closed node has been relaxed.
\<close>

definition totals_ok :: "'e AStar \<Rightarrow> Node \<Rightarrow> search_state \<Rightarrow> bool" where
  "totals_ok A start s \<longleftrightarrow>
     (\<forall>n \<in> dom (totalCosts s). n \<noteq> start \<longrightarrow>
        totalCosts s n = Some (the (linkCosts s n) + heuristic_value A start n))"

definition costs_optimal :: "'e AStar \<Rightarrow> Node \<Rightarrow> search_state \<Rightarrow> Node set \<Rightarrow> bool" where
  "costs_optimal A start s C \<longleftrightarrow>
     (\<forall>u \<in> C. \<forall>ls. is_path A start ls u \<longrightarrow> the (linkCosts s u) \<le> path_cost ls)"

definition links_relaxed :: "'e AStar \<Rightarrow> search_state \<Rightarrow> Node \<Rightarrow> bool" where
  "links_relaxed A s u \<longleftrightarrow>
     (\<forall>l. out_link A u l \<longrightarrow>
        (\<exists>gv. linkCosts s (to_l l) = Some gv \<and> gv \<le> the (linkCosts s u) + cost_l l))"

text \<open>
  The invariant at the head of the loop, and its form inside the loop over the links
  of \<open>best\<close>, where \<open>best\<close> counts as closed already and \<open>gb\<close> is its recorded cost.
\<close>

definition search_inv :: "'e AStar \<Rightarrow> Node \<Rightarrow> Node \<Rightarrow> search_state \<Rightarrow> bool" where
  "search_inv A start goal s \<longleftrightarrow>
     bookkeeping s \<and> derivable A start s (set (closed_set s)) \<and> totals_ok A start s \<and>
     costs_optimal A start s (set (closed_set s)) \<and>
     (\<forall>u \<in> set (closed_set s). links_relaxed A s u) \<and>
     (start \<in> set (closed_set s) \<or> s = initial_state start) \<and>
     goal \<notin> set (closed_set s)"

definition relax_inv :: "'e AStar \<Rightarrow> Node \<Rightarrow> Node \<Rightarrow> real \<Rightarrow> search_state \<Rightarrow> bool" where
  "relax_inv A start best gb s \<longleftrightarrow>
     bookkeeping s \<and> derivable A start s (insert best (set (closed_set s))) \<and>
     totals_ok A start s \<and> costs_optimal A start s (insert best (set (closed_set s))) \<and>
     (\<forall>u \<in> set (closed_set s). links_relaxed A s u) \<and>
     linkCosts s best = Some gb \<and> best \<in> dom (cameFrom s)"

section \<open>Relating the two models\<close>

text \<open>
  A key is settable when an assignment to it creates an entry: every key but
  \<open>__proto__\<close>. It is plain when moreover an entry under it shadows no method that
  the code calls: every key but \<open>__proto__\<close> and \<open>hasOwnProperty\<close>. The nodes
  of a search are the start and the targets of the links that the expander returns.
\<close>

definition plain_key :: "Node \<Rightarrow> bool" where
  "plain_key k \<longleftrightarrow> k \<noteq> ''__proto__'' \<and> k \<noteq> ''hasOwnProperty''"

definition settable_nodes :: "'e AStar \<Rightarrow> Node \<Rightarrow> bool" where
  "settable_nodes A start \<longleftrightarrow>
     start \<noteq> ''__proto__'' \<and> (\<forall>n l. out_link A n l \<longrightarrow> to_l l \<noteq> ''__proto__'')"

definition plain_nodes :: "'e AStar \<Rightarrow> Node \<Rightarrow> bool" where
  "plain_nodes A start \<longleftrightarrow> plain_key start \<and> (\<forall>n l. out_link A n l \<longrightarrow> plain_key (to_l l))"

definition plain_state :: "search_state \<Rightarrow> bool" where
  "plain_state s \<longleftrightarrow> (\<forall>k \<in> set (open_set s) \<union> set (closed_set s). plain_key k)"

text \<open>
  A state, a failure, a step and a result of the first model, seen in the model with
  objects: the prototype of \<open>cameFrom\<close> is still \<open>Object.prototype\<close>.
\<close>

definition js_of_state :: "search_state \<Rightarrow> js_state" where
  "js_of_state s =
     \<lparr>js_cameFrom = cameFrom s, js_proto = ObjectProto, js_totalCosts = totalCosts s,
      js_linkCosts = linkCosts s, js_open = open_set s, js_closed = closed_set s,
      js_iterations = iterations_st s\<rparr>"

fun js_of_failure :: "'e failure \<Rightarrow> 'e js_failure" where
  "js_of_failure (Raised e) = JsRaised e"
| "js_of_failure TypeError = JsTypeError"
| "js_of_failure UndefinedCost = Unmodelled"

fun js_of_step :: "'e step \<Rightarrow> 'e js_step" where
  "js_of_step (NotFound n) = JsNotFound n"
| "js_of_step (Break b s) = JsBreak b (js_of_state s)"
| "js_of_step (Throw e) = JsThrow (js_of_failure e)"
| "js_of_step (Next s) = JsNext (js_of_state s)"

definition js_of_path :: "Path \<Rightarrow> JsPath" where
  "js_of_path p =
     \<lparr>found_js = found p, iterations_js = iterations p, cost_js = map_option Number (cost p),
      path_js = path p\<rparr>"

text \<open>The states at the head of the loop, in the model with objects.\<close>

inductive visited_js :: "'e AStar \<Rightarrow> Node \<Rightarrow> Node \<Rightarrow> js_state \<Rightarrow> bool"
  for A :: "'e AStar" and start :: Node and goal :: Node where
  visited_js_initial: "visited_js A start goal (initial_js start)"
| visited_js_next: "visited_js A start goal s \<Longrightarrow> iteration_js A start goal s = JsNext s' \<Longrightarrow>
     visited_js A start goal s'"

text \<open>
  Costs for which the sums of the code are exact: every link that the expander returns
  is in the list \<open>g\<close>, the costs of \<open>g\<close> are natural numbers, and their total is at
  most \<open>2^53\<close>. Every cost that \<open>findPath\<close> records is then a sum of costs of
  different links of \<open>g\<close>, a natural number below \<open>2^53\<close>, which the doubles of the
  code add without rounding. The same for a heuristic: its values are natural numbers
  that keep the totals within \<open>2^53\<close>.
\<close>

definition links_among :: "'e AStar \<Rightarrow> Link list \<Rightarrow> bool" where
  "links_among A g \<longleftrightarrow> (\<forall>n l. out_link A n l \<longrightarrow> l \<in> set g)"

definition integer_costs :: "Link list \<Rightarrow> bool" where
  "integer_costs g \<longleftrightarrow> (\<forall>l \<in> set g. cost_l l \<in> \<nat>) \<and> sum_list (map cost_l g) \<le> 2 ^ 53"

definition integer_heuristic :: "'e AStar \<Rightarrow> Node \<Rightarrow> Link list \<Rightarrow> bool" where
  "integer_heuristic A start g \<longleftrightarrow>
     (\<forall>n. \<exists>v. calculateHeuristicCostToTraverseLink A start n = Inr v \<and> v \<in> \<nat> \<and>
        sum_list (map cost_l g) + v \<le> 2 ^ 53)"

text \<open>
  The heuristic, as \<open>findPath\<close> calls it, never overestimates the cost that remains
  from a node to the goal.
\<close>

definition never_overestimates :: "'e AStar \<Rightarrow> Node \<Rightarrow> Node \<Rightarrow> bool" where
  "never_overestimates A start goal \<longleftrightarrow>
     (\<forall>n ls. is_path A n ls goal \<longrightarrow> heuristic_value A start n \<le> path_cost ls)"
section \<open>Example graphs\<close>

text \<open>Two links leaving \<open>s\<close> with the same cost: a tie between \<open>x\<close> and \<open>y\<close>.\<close>

definition tie_graph :: "Link list" where
  "tie_graph =
     [mk_link ''s'' ''x'' 1, mk_link ''s'' ''y'' 1, mk_link ''x'' ''g'' 1, mk_link ''y'' ''n'' 1]"

definition tie_state :: search_state where
  "tie_state =
     \<lparr>cameFrom = [''s'' \<mapsto> None, ''x'' \<mapsto> Some (mk_link ''s'' ''x'' 1),
                  ''y'' \<mapsto> Some (mk_link ''s'' ''y'' 1)],
      totalCosts = [''s'' \<mapsto> 0, ''x'' \<mapsto> 1, ''y'' \<mapsto> 1],
      linkCosts = [''s'' \<mapsto> 0, ''x'' \<mapsto> 1, ''y'' \<mapsto> 1],
      open_set = [''x'', ''y''], closed_set = [''s''], iterations_st = 2\<rparr>"

text \<open>
  A link back to the start that would lower its cost: \<open>a\<close> is closed when \<open>b\<close> is
  expanded.
\<close>

definition back_graph :: "Link list" where
  "back_graph = [mk_link ''a'' ''b'' 1, mk_link ''b'' ''a'' (- 5)]"

text \<open>The state after the expansion of \<open>a\<close>, whose only link goes to \<open>b\<close> at cost 1.\<close>

definition one_link_state :: search_state where
  "one_link_state =
     \<lparr>cameFrom = [''a'' \<mapsto> None, ''b'' \<mapsto> Some (mk_link ''a'' ''b'' 1)],
      totalCosts = [''a'' \<mapsto> 0, ''b'' \<mapsto> 1],
      linkCosts = [''a'' \<mapsto> 0, ''b'' \<mapsto> 1],
      open_set = [''b''], closed_set = [''a''], iterations_st = 2\<rparr>"

definition back_state2 :: search_state where
  "back_state2 =
     \<lparr>cameFrom = [''a'' \<mapsto> None, ''b'' \<mapsto> Some (mk_link ''a'' ''b'' 1)],
      totalCosts = [''a'' \<mapsto> 0, ''b'' \<mapsto> 1],
      linkCosts = [''a'' \<mapsto> 0, ''b'' \<mapsto> 1],
      open_set = [], closed_set = [''a'', ''b''], iterations_st = 3\<rparr>"

text \<open>The third test of the suite: one link from start to goal.\<close>

definition one_link_graph :: "Link list" where
  "one_link_graph = [mk_link ''a'' ''b'' 1]"



text \<open>The fourth test of the suite: two competing routes from \<open>a\<close> to \<open>d\<close>.\<close>

definition diamond_graph :: "Link list" where
  "diamond_graph =
     [mk_link ''a'' ''b'' 3, mk_link ''a'' ''c'' 1, mk_link ''b'' ''d'' 3, mk_link ''c'' ''d'' 2]"

text \<open>A link of negative cost from the start to itself, and the state after one pass.\<close>

definition start_loop_graph :: "Link list" where
  "start_loop_graph = [mk_link ''a'' ''a'' (- 1), mk_link ''a'' ''b'' 1]"

definition start_loop_state :: search_state where
  "start_loop_state =
     \<lparr>cameFrom = [''a'' \<mapsto> Some (mk_link ''a'' ''a'' (- 1)), ''b'' \<mapsto> Some (mk_link ''a'' ''b'' 1)],
      totalCosts = [''a'' \<mapsto> - 1, ''b'' \<mapsto> 0],
      linkCosts = [''a'' \<mapsto> - 1, ''b'' \<mapsto> 0],
      open_set = [''b''], closed_set = [''a''], iterations_st = 2\<rparr>"

text \<open>
  An expander whose link for \<open>a\<close> has a \<open>from\<close> field that is not \<open>a\<close>, and the state
  after one pass.
\<close>

definition misleading_links :: "Node \<Rightarrow> unit + Link list" where
  "misleading_links node = (if node = ''a'' then Inr [mk_link ''b'' ''b'' 1] else Inr [])"

definition misleading_state :: search_state where
  "misleading_state =
     \<lparr>cameFrom = [''a'' \<mapsto> None, ''b'' \<mapsto> Some (mk_link ''b'' ''b'' 1)],
      totalCosts = [''a'' \<mapsto> 0, ''b'' \<mapsto> 1],
      linkCosts = [''a'' \<mapsto> 0, ''b'' \<mapsto> 1],
      open_set = [''b''], closed_set = [''a''], iterations_st = 2\<rparr>"

text \<open>
  A link of negative cost from \<open>b\<close> to itself, and the state after the expansion of
  \<open>a\<close> and \<open>b\<close>.
\<close>

definition inner_loop_graph :: "Link list" where
  "inner_loop_graph = [mk_link ''a'' ''b'' 1, mk_link ''b'' ''b'' (- 1), mk_link ''b'' ''c'' 1]"

definition inner_loop_state :: search_state where
  "inner_loop_state =
     \<lparr>cameFrom = [''a'' \<mapsto> None, ''b'' \<mapsto> Some (mk_link ''b'' ''b'' (- 1)),
                  ''c'' \<mapsto> Some (mk_link ''b'' ''c'' 1)],
      totalCosts = [''a'' \<mapsto> 0, ''b'' \<mapsto> 0, ''c'' \<mapsto> 1],
      linkCosts = [''a'' \<mapsto> 0, ''b'' \<mapsto> 0, ''c'' \<mapsto> 1],
      open_set = [''c''], closed_set = [''a'', ''b''], iterations_st = 3\<rparr>"

text \<open>
  The heuristic of the last test of the suite: the distance of two letters in the
  alphabet, with \<open>indexOf\<close> giving \<open>-1\<close> for a string that is not a letter.
\<close>

fun index_of :: "'a list \<Rightarrow> 'a \<Rightarrow> int" where
  "index_of [] x = - 1"
| "index_of (y # ys) x =
     (if x = y then 0 else (let i = index_of ys x in if i < 0 then - 1 else i + 1))"

definition alphabet :: "string list" where
  "alphabet = map (\<lambda>c. [c]) ''abcdefghijklmnopqrstuvwxyz''"

definition alphabet_heuristic :: "Node \<Rightarrow> Node \<Rightarrow> unit + real" where
  "alphabet_heuristic a b = Inr (real_of_int \<bar>index_of alphabet a - index_of alphabet b\<bar>)"

text \<open>The graph of the last two tests of the suite.\<close>

definition opposite_graph :: "Link list" where
  "opposite_graph =
     [mk_link ''a'' ''z'' 1, mk_link ''a'' ''b'' 10, mk_link ''z'' ''y'' 1, mk_link ''y'' ''x'' 1,
      mk_link ''x'' ''w'' 1, mk_link ''b'' ''c'' 5]"

text \<open>
  A graph where the cheapest route to \<open>b\<close> goes through \<open>a\<close>, and a heuristic that
  makes \<open>a\<close> look worse than \<open>b\<close>.
\<close>

definition detour_graph :: "Link list" where
  "detour_graph =
     [mk_link ''s'' ''a'' 3, mk_link ''s'' ''b'' 5, mk_link ''a'' ''b'' 1, mk_link ''b'' ''g'' 10]"

definition detour_heuristic :: "Node \<Rightarrow> Node \<Rightarrow> unit + real" where
  "detour_heuristic x y = Inr (if x = ''s'' \<and> y = ''a'' then 3 else 0)"

text \<open>A heuristic for \<open>tie_graph\<close> that delays the expansion of \<open>x\<close>.\<close>

definition tie_heuristic :: "Node \<Rightarrow> Node \<Rightarrow> unit + real" where
  "tie_heuristic x y = Inr (if x = ''s'' \<and> y = ''x'' then 1 else 0)"

text \<open>
  A node named \<open>__proto__\<close>, the first link of the start, beside two ordinary nodes;
  the states after one, two and three passes through the loop.
\<close>

definition proto_first_graph :: "Link list" where
  "proto_first_graph =
     [mk_link ''a'' ''__proto__'' 7, mk_link ''a'' ''b'' 5, mk_link ''a'' ''c'' 1]"

definition proto_first_state1 :: js_state where
  "proto_first_state1 =
     \<lparr>js_cameFrom = [''a'' \<mapsto> None, ''b'' \<mapsto> Some (mk_link ''a'' ''b'' 5),
                     ''c'' \<mapsto> Some (mk_link ''a'' ''c'' 1)],
      js_proto = LinkProto (mk_link ''a'' ''__proto__'' 7),
      js_totalCosts = [''a'' \<mapsto> 0, ''b'' \<mapsto> 5, ''c'' \<mapsto> 1],
      js_linkCosts = [''a'' \<mapsto> 0, ''b'' \<mapsto> 5, ''c'' \<mapsto> 1],
      js_open = [''__proto__'', ''b'', ''c''], js_closed = [''a''], js_iterations = 2\<rparr>"

definition proto_first_state2 :: js_state where
  "proto_first_state2 =
     \<lparr>js_cameFrom = [''a'' \<mapsto> None, ''b'' \<mapsto> Some (mk_link ''a'' ''b'' 5),
                     ''c'' \<mapsto> Some (mk_link ''a'' ''c'' 1)],
      js_proto = LinkProto (mk_link ''a'' ''__proto__'' 7),
      js_totalCosts = [''a'' \<mapsto> 0, ''b'' \<mapsto> 5, ''c'' \<mapsto> 1],
      js_linkCosts = [''a'' \<mapsto> 0, ''b'' \<mapsto> 5, ''c'' \<mapsto> 1],
      js_open = [''b'', ''c''], js_closed = [''a'', ''__proto__''], js_iterations = 3\<rparr>"

definition proto_first_state3 :: js_state where
  "proto_first_state3 =
     \<lparr>js_cameFrom = [''a'' \<mapsto> None, ''b'' \<mapsto> Some (mk_link ''a'' ''b'' 5),
                     ''c'' \<mapsto> Some (mk_link ''a'' ''c'' 1)],
      js_proto = LinkProto (mk_link ''a'' ''__proto__'' 7),
      js_totalCosts = [''a'' \<mapsto> 0, ''b'' \<mapsto> 5, ''c'' \<mapsto> 1],
      js_linkCosts = [''a'' \<mapsto> 0, ''b'' \<mapsto> 5, ''c'' \<mapsto> 1],
      js_open = [''b''], js_closed = [''a'', ''__proto__'', ''c''], js_iterations = 4\<rparr>"

text \<open>
  An expander that returns, for \<open>a\<close>, a link that leaves \<open>c\<close> before the link that
  leads to \<open>c\<close>.
\<close>

definition swapped_links :: "Node \<Rightarrow> unit + Link list" where
  "swapped_links node =
     (if node = ''a'' then Inr [mk_link ''c'' ''b'' 1, mk_link ''a'' ''c'' 5] else Inr [])"

text \<open>One link to a node named \<open>__proto__\<close>, and the state after the expansion of \<open>a\<close>.\<close>

definition proto_goal_graph :: "Link list" where
  "proto_goal_graph = [mk_link ''a'' ''__proto__'' 1]"

definition proto_goal_state :: js_state where
  "proto_goal_state =
     \<lparr>js_cameFrom = [''a'' \<mapsto> None], js_proto = LinkProto (mk_link ''a'' ''__proto__'' 1),
      js_totalCosts = [''a'' \<mapsto> 0], js_linkCosts = [''a'' \<mapsto> 0],
      js_open = [''__proto__''], js_closed = [''a''], js_iterations = 2\<rparr>"

text \<open>A route to the goal through a node named \<open>hasOwnProperty\<close>.\<close>

definition shadow_graph :: "Link list" where
  "shadow_graph = [mk_link ''s'' ''hasOwnProperty'' 1, mk_link ''hasOwnProperty'' ''g'' 1]"
section \<open>Unfolding the loops\<close>

lemmas eval_defs = iteration_def initial_state_def new_AStar_def graph_links_def relax_def
  set_add_def set_delete_def js_less_def mk_link_def Let_def

lemma search_loop_Break:
  "iteration A start goal s = Break b s' \<Longrightarrow> search_loop A start goal s = Some (Break b s')"
  by (subst search_loop.simps) simp

lemma search_loop_NotFound:
  "iteration A start goal s = NotFound n \<Longrightarrow> search_loop A start goal s = Some (NotFound n)"
  by (subst search_loop.simps) simp

lemma search_loop_Throw:
  "iteration A start goal s = Throw e \<Longrightarrow> search_loop A start goal s = Some (Throw e)"
  by (subst search_loop.simps) simp

lemma search_loop_Next:
  "iteration A start goal s = Next s' \<Longrightarrow>
     search_loop A start goal s = search_loop A start goal s'"
  by (subst search_loop.simps) simp

lemma trace_back_null: "trace_back cf (Some None) p = Some (Inr p)"
  by (subst trace_back.simps) simp

lemma trace_back_undefined: "trace_back cf None p = Some (Inl TypeError)"
  by (subst trace_back.simps) simp

lemma trace_back_link:
  "trace_back cf (Some (Some link)) p = trace_back cf (cf (from_l link)) (link # p)"
  by (subst trace_back.simps) simp

lemma trace_back_failure:
  "trace_back cf previousLink p = Some r \<Longrightarrow> \<forall>e. r = Inl e \<longrightarrow> e = TypeError"
proof (induction rule: trace_back.raw_induct [rotated, consumes 1])
  case (1 trace cf previousLink p r)
  show ?case
  proof (cases previousLink)
    case None
    with 1(2) show ?thesis by auto
  next
    case (Some x)
    show ?thesis
    proof (cases x)
      case None
      with Some 1(2) show ?thesis by auto
    next
      case (Some link)
      with \<open>previousLink = Some x\<close> 1(2)
      have "trace cf (cf (from_l link)) (link # p) = Some r" by simp
      then show ?thesis by (rule 1(1))
    qed
  qed
qed

lemma trace_back_TypeError_only:
  "trace_back cf previousLink p = Some (Inl e) \<Longrightarrow> e = TypeError"
  using trace_back_failure by blast

lemma trace_back_cycle_aux:
  "trace_back cf previousLink p = Some r \<Longrightarrow> cf (from_l l) = Some (Some l) \<Longrightarrow>
     previousLink \<noteq> Some (Some l)"
proof (induction rule: trace_back.raw_induct [rotated, consumes 1])
  case (1 trace cf previousLink p r)
  show ?case
  proof
    assume eq: "previousLink = Some (Some l)"
    with 1(2) have "trace cf (cf (from_l l)) (l # p) = Some r" by simp
    from 1(1) [OF this 1(3)] 1(3) show False by simp
  qed
qed

lemma trace_back_cycle:
  assumes "cf (from_l l) = Some (Some l)"
  shows "trace_back cf (Some (Some l)) p = (None :: ('e failure + Link list) option)"
proof (rule ccontr)
  note c = assms
  assume "trace_back cf (Some (Some l)) p \<noteq> (None :: ('e failure + Link list) option)"
  then obtain r :: "'e failure + Link list" where "trace_back cf (Some (Some l)) p = Some r"
    by auto
  from trace_back_cycle_aux [OF this c] show False by simp
qed

lemma trace_back_into_cycle:
  assumes "cf n = Some (Some l1)" and "cf (from_l l1) = Some (Some l2)"
    and "cf (from_l l2) = Some (Some l2)"
  shows "trace_back cf (cf n) p = (None :: ('e failure + Link list) option)"
proof -
  have "trace_back cf (cf n) p = (trace_back cf (Some (Some l1)) p :: ('e failure + Link list) option)"
    by (simp only: assms(1))
  also have "\<dots> = trace_back cf (cf (from_l l1)) (l1 # p)"
    by (rule trace_back_link)
  also have "\<dots> = trace_back cf (Some (Some l2)) (l1 # p)"
    by (simp only: assms(2))
  also have "\<dots> = None"
    using assms(3) by (rule trace_back_cycle)
  finally show ?thesis .
qed


section \<open>Start equal to goal, and a start without links\<close>

lemma iteration_initial_goal:
  "iteration A n n (initial_state n) = Break n (initial_state n)"
  by (simp add: iteration_def initial_state_def)

text \<open>
  On ordinary keys, \<open>findPath(n, n)\<close> returns
  \<open>{found: true, cost: 0, iterations: 1, path: []}\<close> without calling the expander.
\<close>

lemma findPath_same_node:
  "findPath A n n = Some (Inr \<lparr>found = True, iterations = 1, cost = Some 0, path = Some []\<rparr>)"
proof -
  have "search_loop A n n (initial_state n) = Some (Break n (initial_state n))"
    by (rule search_loop_Break) (rule iteration_initial_goal)
  then show ?thesis
    by (simp add: findPath_def initial_state_def trace_back_null)
qed

lemma iteration_initial_no_links:
  assumes "start \<noteq> goal" and "calculateLinksForNode A start = Inr []"
  shows "iteration A start goal (initial_state start) =
     Next \<lparr>cameFrom = [start \<mapsto> None], totalCosts = [start \<mapsto> 0],
           linkCosts = [start \<mapsto> 0], open_set = [], closed_set = [start],
           iterations_st = 2\<rparr>"
  using assms by (simp add: iteration_def initial_state_def set_add_def set_delete_def)

text \<open>
  C6: for every start and goal with \<open>start \<noteq> goal\<close>, if the expander returns the
  empty collection for \<open>start\<close>, then \<open>findPath(start, goal)\<close> returns exactly
  \<open>{found: false, iterations: 2}\<close>.
\<close>

theorem findPath_no_links_from_start:
  assumes "start \<noteq> goal" and "calculateLinksForNode A start = Inr []"
  shows "findPath A start goal =
     Some (Inr \<lparr>found = False, iterations = 2, cost = None, path = None\<rparr>)"
proof -
  let ?s = "\<lparr>cameFrom = [start \<mapsto> None], totalCosts = [start \<mapsto> 0],
             linkCosts = [start \<mapsto> 0], open_set = [], closed_set = [start],
             iterations_st = 2\<rparr>"
  have "iteration A start goal ?s = NotFound 2"
    by (simp add: iteration_def)
  then have "search_loop A start goal ?s = Some (NotFound 2)"
    by (rule search_loop_NotFound)
  moreover have "search_loop A start goal (initial_state start) = search_loop A start goal ?s"
    by (rule search_loop_Next) (rule iteration_initial_no_links [OF assms])
  ultimately show ?thesis
    by (simp add: findPath_def)
qed

theorem findPath_no_links_from_start_witness:
  "''a'' \<noteq> ''c'' \<and> calculateLinksForNode (new_AStar (graph_links []) None) ''a'' = Inr [] \<and>
   findPath (new_AStar (graph_links []) None) ''a'' ''c'' =
     Some (Inr \<lparr>found = False, iterations = 2, cost = None, path = None\<rparr>)"
proof -
  have 1: "''a'' \<noteq> ''c''" by simp
  have 2: "calculateLinksForNode (new_AStar (graph_links []) None) ''a'' = Inr []"
    by (simp add: new_AStar_def graph_links_def)
  show ?thesis
    using 1 2 findPath_no_links_from_start [OF 1 2] by simp
qed

section \<open>The bookkeeping invariant\<close>

lemma set_set_add [simp]: "set (set_add xs x) = insert x (set xs)"
  by (auto simp: set_add_def)

lemma set_set_delete [simp]: "set (set_delete xs x) = set xs - {x}"
  by (auto simp: set_delete_def)

lemma bookkeeping_initial: "bookkeeping (initial_state start)"
  by (simp add: bookkeeping_def initial_state_def)

lemma relax_cases:
  assumes "relax A start best s link = Inr s'"
  obtains (closed) "to_l link \<in> set (closed_set s)" "s' = s"
  | (update) g h where "to_l link \<notin> set (closed_set s)" "linkCosts s best = Some g"
      "linkCosts s (to_l link) = None \<or> js_less (Some (g + cost_l link)) (linkCosts s (to_l link))"
      "calculateHeuristicCostToTraverseLink A start (to_l link) = Inr h"
      "s' = s\<lparr>linkCosts := (linkCosts s)(to_l link \<mapsto> g + cost_l link),
              totalCosts := (totalCosts s)(to_l link \<mapsto> g + cost_l link + h),
              cameFrom := (cameFrom s)(to_l link \<mapsto> Some link),
              open_set := set_add (open_set s) (to_l link)\<rparr>"
  | (keep) g where "to_l link \<notin> set (closed_set s)" "linkCosts s best = Some g"
      "linkCosts s (to_l link) \<noteq> None" "\<not> js_less (Some (g + cost_l link)) (linkCosts s (to_l link))"
      "s' = s\<lparr>open_set := set_add (open_set s) (to_l link)\<rparr>"
proof (cases "to_l link \<in> set (closed_set s)")
  case True
  with assms have "s' = s" by (simp add: relax_def Let_def)
  with True show ?thesis by (rule closed)
next
  case False
  show ?thesis
  proof (cases "linkCosts s best")
    case None
    with False assms show ?thesis by (simp add: relax_def Let_def)
  next
    case (Some g)
    show ?thesis
    proof (cases "linkCosts s (to_l link)")
      case None
      show ?thesis
      proof (cases "calculateHeuristicCostToTraverseLink A start (to_l link)")
        case (Inl e)
        with False Some None assms show ?thesis by (simp add: relax_def Let_def)
      next
        case (Inr h)
        with False Some None assms show ?thesis
          by (intro update [of g h]) (auto simp: relax_def Let_def)
      qed
    next
      case old: (Some c)
      show ?thesis
      proof (cases "js_less (Some (g + cost_l link)) (Some c)")
        case True
        show ?thesis
        proof (cases "calculateHeuristicCostToTraverseLink A start (to_l link)")
          case (Inl e)
          with False Some old True assms show ?thesis by (simp add: relax_def Let_def)
        next
          case (Inr h)
          with False Some old True assms show ?thesis
            by (intro update [of g h]) (auto simp: relax_def Let_def)
        qed
      next
        case no: False
        with False Some old assms show ?thesis
          by (intro keep [of g]) (auto simp: relax_def Let_def)
      qed
    qed
  qed
qed

lemma relax_closed_set: "relax A start best s link = Inr s' \<Longrightarrow> closed_set s' = closed_set s"
  by (erule relax_cases) simp_all

lemma relax_iterations: "relax A start best s link = Inr s' \<Longrightarrow> iterations_st s' = iterations_st s"
  by (erule relax_cases) simp_all

lemma relax_open_set:
  "relax A start best s link = Inr s' \<Longrightarrow>
     open_set s' = (if to_l link \<in> set (closed_set s) then open_set s
                    else set_add (open_set s) (to_l link))"
  by (erule relax_cases) simp_all

lemma relax_bookkeeping:
  assumes "relax A start best s link = Inr s'" and "bookkeeping s"
  shows "bookkeeping s'"
  using assms(1)
proof (cases rule: relax_cases)
  case closed
  with assms(2) show ?thesis by simp
next
  case (update g h)
  with assms(2) show ?thesis
    by (auto simp: bookkeeping_def)
next
  case (keep g)
  with assms(2) show ?thesis
    by (auto simp: bookkeeping_def)
qed

lemma relax_links_closed_set:
  "relax_links A start best s links = Inr s' \<Longrightarrow> closed_set s' = closed_set s"
  by (induction links arbitrary: s) (auto split: sum.splits dest: relax_closed_set)

lemma relax_links_iterations:
  "relax_links A start best s links = Inr s' \<Longrightarrow> iterations_st s' = iterations_st s"
  by (induction links arbitrary: s) (auto split: sum.splits dest: relax_iterations)

lemma relax_links_bookkeeping:
  "relax_links A start best s links = Inr s' \<Longrightarrow> bookkeeping s \<Longrightarrow> bookkeeping s'"
  by (induction links arbitrary: s) (auto split: sum.splits dest: relax_bookkeeping)

lemma relax_open_mono:
  "relax A start best s link = Inr s' \<Longrightarrow> set (open_set s) \<subseteq> set (open_set s')"
  by (erule relax_cases) auto

lemma relax_links_open_mono:
  "relax_links A start best s links = Inr s' \<Longrightarrow> set (open_set s) \<subseteq> set (open_set s')"
  by (induction links arbitrary: s) (auto split: sum.splits dest: relax_open_mono)

lemma find_best_None: "find_best tc b xs = None \<longleftrightarrow> b = None \<and> xs = []"
  by (induction xs arbitrary: b) (auto split: option.splits)

lemma find_best_member_Some: "find_best tc (Some b) xs = Some r \<Longrightarrow> r = b \<or> r \<in> set xs"
  by (induction xs arbitrary: b) (auto split: if_splits)

lemma find_best_member: "find_best tc None xs = Some r \<Longrightarrow> r \<in> set xs"
  by (cases xs) (auto dest: find_best_member_Some)

lemma iteration_cases:
  assumes "iteration A start goal s = r"
  obtains (not_found) "open_set s = []" "r = NotFound (iterations_st s)"
  | (break) "find_best (totalCosts s) None (open_set s) = Some goal" "r = Break goal s"
  | (links_throw) best e where "find_best (totalCosts s) None (open_set s) = Some best"
      "best \<noteq> goal" "calculateLinksForNode A best = Inl e" "r = Throw (Raised e)"
  | (relax_throw) best links e where "find_best (totalCosts s) None (open_set s) = Some best"
      "best \<noteq> goal" "calculateLinksForNode A best = Inr links"
      "relax_links A start best s links = Inl e" "r = Throw e"
  | (continue) best links s' where "find_best (totalCosts s) None (open_set s) = Some best"
      "best \<noteq> goal" "calculateLinksForNode A best = Inr links"
      "relax_links A start best s links = Inr s'"
      "r = Next (s'\<lparr>closed_set := set_add (closed_set s') best,
                     open_set := set_delete (open_set s') best,
                     iterations_st := iterations_st s' + 1\<rparr>)"
  using assms unfolding iteration_def
  by (auto split: option.splits if_splits sum.splits simp: find_best_None)

lemma iteration_bookkeeping:
  assumes "iteration A start goal s = Next s'" and "bookkeeping s"
  shows "bookkeeping s'"
  using assms(1)
proof (cases rule: iteration_cases)
  case (continue best links t)
  have bt: "bookkeeping t"
    using continue(4) assms(2) by (rule relax_links_bookkeeping)
  have "best \<in> set (open_set s)"
    using continue(1) by (rule find_best_member)
  then have "best \<in> set (open_set t)"
    using relax_links_open_mono [OF continue(4)] by auto
  with bt continue(5) show ?thesis
    by (auto simp: bookkeeping_def)
qed simp_all

lemma visited_bookkeeping: "visited A start goal s \<Longrightarrow> bookkeeping s"
  by (induction rule: visited.induct) (auto intro: bookkeeping_initial iteration_bookkeeping)

section \<open>From results of the loop back to visited states\<close>

lemma visited_rtranclp:
  "(next_state A start goal)\<^sup>*\<^sup>* s s' \<Longrightarrow> visited A start goal s \<Longrightarrow> visited A start goal s'"
  by (induction rule: rtranclp_induct) (auto simp: next_state_def intro: visited_next)

lemma search_loop_result:
  assumes "search_loop A start goal s0 = Some r"
  shows "\<exists>s. (next_state A start goal)\<^sup>*\<^sup>* s0 s \<and> iteration A start goal s = r \<and>
           (\<forall>s'. r \<noteq> Next s')"
  using assms
proof (induction rule: search_loop.raw_induct [rotated, consumes 1])
  case (1 loop A start goal s r)
  show ?case
  proof (cases "iteration A start goal s")
    case (Next s')
    with 1(2) have "loop A start goal s' = Some r" by simp
    then have "\<exists>t. (next_state A start goal)\<^sup>*\<^sup>* s' t \<and> iteration A start goal t = r \<and>
           (\<forall>s'. r \<noteq> Next s')"
      by (rule 1(1))
    then obtain t where
      t: "(next_state A start goal)\<^sup>*\<^sup>* s' t" "iteration A start goal t = r" "\<forall>s'. r \<noteq> Next s'"
      by blast
    from Next have "next_state A start goal s s'" by (simp add: next_state_def)
    then have "(next_state A start goal)\<^sup>*\<^sup>* s t"
      using t(1) by (rule converse_rtranclp_into_rtranclp)
    with t(2,3) show ?thesis by blast
  next
    case (NotFound n)
    with 1(2) have "r = NotFound n" by simp
    with NotFound have "(next_state A start goal)\<^sup>*\<^sup>* s s \<and> iteration A start goal s = r \<and>
           (\<forall>s'. r \<noteq> Next s')" by simp
    then show ?thesis by (rule exI)
  next
    case (Break b t)
    with 1(2) have "r = Break b t" by simp
    with Break have "(next_state A start goal)\<^sup>*\<^sup>* s s \<and> iteration A start goal s = r \<and>
           (\<forall>s'. r \<noteq> Next s')" by simp
    then show ?thesis by (rule exI)
  next
    case (Throw e)
    with 1(2) have "r = Throw e" by simp
    with Throw have "(next_state A start goal)\<^sup>*\<^sup>* s s \<and> iteration A start goal s = r \<and>
           (\<forall>s'. r \<noteq> Next s')" by simp
    then show ?thesis by (rule exI)
  qed
qed

lemma search_loop_initial_result:
  assumes "search_loop A start goal (initial_state start) = Some r"
  shows "\<exists>s. visited A start goal s \<and> iteration A start goal s = r \<and> (\<forall>s'. r \<noteq> Next s')"
proof -
  from search_loop_result [OF assms] obtain s where
    s: "(next_state A start goal)\<^sup>*\<^sup>* (initial_state start) s" "iteration A start goal s = r"
       "\<forall>s'. r \<noteq> Next s'"
    by blast
  from s(1) have "visited A start goal s"
    by (rule visited_rtranclp) (rule visited_initial)
  with s(2,3) show ?thesis by blast
qed

section \<open>Closed nodes are final\<close>

lemma same_entries_refl: "same_entries s s n"
  by (simp add: same_entries_def)

lemma same_entries_trans: "same_entries s t n \<Longrightarrow> same_entries t u n \<Longrightarrow> same_entries s u n"
  by (simp add: same_entries_def)

lemma relax_closed_node:
  assumes "relax A start best s link = Inr s'" and "n \<in> set (closed_set s)"
  shows "same_entries s s' n \<and> (n \<in> set (open_set s') \<longleftrightarrow> n \<in> set (open_set s))"
  using assms(1)
proof (cases rule: relax_cases)
  case closed
  then show ?thesis by (simp add: same_entries_def)
next
  case (update g h)
  with assms(2) have "to_l link \<noteq> n" by auto
  with update show ?thesis by (auto simp: same_entries_def)
next
  case (keep g)
  with assms(2) have "to_l link \<noteq> n" by auto
  with keep show ?thesis by (auto simp: same_entries_def)
qed

lemma relax_links_closed_node:
  "relax_links A start best s links = Inr s' \<Longrightarrow> n \<in> set (closed_set s) \<Longrightarrow>
     same_entries s s' n \<and> (n \<in> set (open_set s') \<longleftrightarrow> n \<in> set (open_set s))"
proof (induction links arbitrary: s)
  case Nil
  then show ?case by (simp add: same_entries_def)
next
  case (Cons link links)
  from Cons.prems(1) obtain t where
    t: "relax A start best s link = Inr t" "relax_links A start best t links = Inr s'"
    by (auto split: sum.splits)
  from relax_closed_node [OF t(1) Cons.prems(2)]
  have 1: "same_entries s t n" "n \<in> set (open_set t) \<longleftrightarrow> n \<in> set (open_set s)" by auto
  have "n \<in> set (closed_set t)"
    using relax_closed_set [OF t(1)] Cons.prems(2) by simp
  from Cons.IH [OF t(2) this]
  have 2: "same_entries t s' n" "n \<in> set (open_set s') \<longleftrightarrow> n \<in> set (open_set t)" by auto
  from same_entries_trans [OF 1(1) 2(1)] 1(2) 2(2) show ?case by simp
qed

lemma iteration_closed_node:
  assumes "iteration A start goal s = Next s'" and "bookkeeping s" and "n \<in> set (closed_set s)"
  shows "n \<in> set (closed_set s') \<and> n \<notin> set (open_set s') \<and> same_entries s s' n"
  using assms(1)
proof (cases rule: iteration_cases)
  case (continue best links t)
  from relax_links_closed_node [OF continue(4) assms(3)]
  have 1: "same_entries s t n" "n \<in> set (open_set t) \<longleftrightarrow> n \<in> set (open_set s)" by auto
  from assms(2,3) have "n \<notin> set (open_set s)" by (auto simp: bookkeeping_def)
  with 1 continue(5) assms(3) relax_links_closed_set [OF continue(4)] show ?thesis
    by (auto simp: same_entries_def)
qed simp_all

lemma closed_final_rtranclp:
  assumes "(next_state A start goal)\<^sup>*\<^sup>* s s'" and "visited A start goal s"
    and "n \<in> set (closed_set s)"
  shows "visited A start goal s' \<and> n \<in> set (closed_set s') \<and> n \<notin> set (open_set s') \<and> same_entries s s' n"
  using assms
proof (induction rule: rtranclp_induct)
  case base
  then show ?case
    using visited_bookkeeping [of A start goal s] by (auto simp: bookkeeping_def same_entries_refl)
next
  case (step t u)
  then have t: "visited A start goal t" "n \<in> set (closed_set t)" "same_entries s t n" by auto
  from step(2) have it: "iteration A start goal t = Next u" by (simp add: next_state_def)
  from iteration_closed_node [OF it visited_bookkeeping [OF t(1)] t(2)]
  have u: "n \<in> set (closed_set u)" "n \<notin> set (open_set u)" "same_entries t u n" by auto
  from visited_next [OF t(1) it] u(1,2) same_entries_trans [OF t(3) u(3)] show ?case by simp
qed

text \<open>
  C2: throughout every execution of \<open>findPath\<close>, a node that is in the closed set
  stays there, is never in the open set again, and its \<open>linkCosts\<close>, \<open>totalCosts\<close>
  and \<open>cameFrom\<close> entries never change again: neither at the head of a later pass
  \<open>s'\<close>, nor after processing any sequence of links from there, whatever their costs.
\<close>

theorem closed_nodes_are_final:
  assumes "visited A start goal s" and "n \<in> set (closed_set s)"
    and "(next_state A start goal)\<^sup>*\<^sup>* s s'"
  shows "n \<in> set (closed_set s') \<and> n \<notin> set (open_set s') \<and> same_entries s s' n \<and>
    (\<forall>best links t. relax_links A start best s' links = Inr t \<longrightarrow>
       n \<in> set (closed_set t) \<and> n \<notin> set (open_set t) \<and> same_entries s t n)"
proof -
  from closed_final_rtranclp [OF assms(3,1,2)]
  have 1: "n \<in> set (closed_set s')" "n \<notin> set (open_set s')" "same_entries s s' n" by auto
  have "n \<in> set (closed_set t) \<and> n \<notin> set (open_set t) \<and> same_entries s t n"
    if "relax_links A start best s' links = Inr t" for best links t
  proof -
    from relax_links_closed_node [OF that 1(1)]
    have 2: "same_entries s' t n" "n \<in> set (open_set t) \<longleftrightarrow> n \<in> set (open_set s')" by auto
    from same_entries_trans [OF 1(3) 2(1)] 2(2) 1(1,2) relax_links_closed_set [OF that]
    show ?thesis by simp
  qed
  with 1 show ?thesis by blast
qed

lemma back_step1:
  "iteration (new_AStar (graph_links back_graph) None) ''a'' ''c'' (initial_state ''a'') =
     Next one_link_state"
  by (simp add: eval_defs back_graph_def one_link_state_def)

lemma back_step2:
  "iteration (new_AStar (graph_links back_graph) None) ''a'' ''c'' one_link_state = Next back_state2"
  by (simp add: eval_defs back_graph_def one_link_state_def back_state2_def)

theorem closed_nodes_are_final_witness:
  "visited (new_AStar (graph_links back_graph) None) ''a'' ''c'' one_link_state \<and>
   ''a'' \<in> set (closed_set one_link_state) \<and>
   (next_state (new_AStar (graph_links back_graph) None) ''a'' ''c'')\<^sup>*\<^sup>* one_link_state back_state2 \<and>
   ''a'' \<in> set (closed_set back_state2) \<and> ''a'' \<notin> set (open_set back_state2) \<and>
   same_entries one_link_state back_state2 ''a''"
proof -
  have 1: "visited (new_AStar (graph_links back_graph) None) ''a'' ''c'' one_link_state"
    by (rule visited_next [OF visited_initial back_step1])
  have 2: "''a'' \<in> set (closed_set one_link_state)"
    by (simp add: one_link_state_def)
  have 3: "(next_state (new_AStar (graph_links back_graph) None) ''a'' ''c'')\<^sup>*\<^sup>*
             one_link_state back_state2"
    by (rule r_into_rtranclp) (simp add: next_state_def back_step2)
  from closed_nodes_are_final [OF 1 2 3] 1 2 3 show ?thesis
    by blast
qed

section \<open>Selection of the best open node\<close>

lemma find_best_Some_spec:
  assumes "set xs \<subseteq> dom tc" and "tc b = Some cb"
  shows "(find_best tc (Some b) xs = Some b \<and> (\<forall>x \<in> set xs. cb \<le> the (tc x))) \<or>
         (\<exists>i < length xs. find_best tc (Some b) xs = Some (xs ! i) \<and> the (tc (xs ! i)) < cb \<and>
            (\<forall>j < length xs. the (tc (xs ! i)) \<le> the (tc (xs ! j))) \<and>
            (\<forall>j < i. the (tc (xs ! i)) < the (tc (xs ! j))))"
  using assms
proof (induction xs arbitrary: b cb)
  case Nil
  then show ?case by simp
next
  case (Cons x xs)
  from Cons.prems(1) obtain cx where cx: "tc x = Some cx" by auto
  from Cons.prems(1) have sub: "set xs \<subseteq> dom tc" by simp
  show ?case
  proof (cases "cx < cb")
    case True
    then have step: "find_best tc (Some b) (x # xs) = find_best tc (Some x) xs"
      using cx Cons.prems(2) by (simp add: js_less_def)
    from Cons.IH [OF sub cx] show ?thesis
    proof (elim disjE conjE exE)
      assume a: "find_best tc (Some x) xs = Some x" "\<forall>y \<in> set xs. cx \<le> the (tc y)"
      have "\<forall>j < length (x # xs). the (tc ((x # xs) ! 0)) \<le> the (tc ((x # xs) ! j))"
      proof (intro allI impI)
        fix j assume "j < length (x # xs)"
        then show "the (tc ((x # xs) ! 0)) \<le> the (tc ((x # xs) ! j))"
          using a(2) cx by (cases j) auto
      qed
      with a(1) step True cx have
        "0 < length (x # xs) \<and> find_best tc (Some b) (x # xs) = Some ((x # xs) ! 0) \<and>
           the (tc ((x # xs) ! 0)) < cb \<and>
           (\<forall>j < length (x # xs). the (tc ((x # xs) ! 0)) \<le> the (tc ((x # xs) ! j))) \<and>
           (\<forall>j < 0. the (tc ((x # xs) ! 0)) < the (tc ((x # xs) ! j)))"
        by simp
      then show ?thesis by blast
    next
      fix i
      assume a: "i < length xs" "find_best tc (Some x) xs = Some (xs ! i)" "the (tc (xs ! i)) < cx"
        "\<forall>j < length xs. the (tc (xs ! i)) \<le> the (tc (xs ! j))"
        "\<forall>j < i. the (tc (xs ! i)) < the (tc (xs ! j))"
      have 1: "\<forall>j < length (x # xs). the (tc ((x # xs) ! Suc i)) \<le> the (tc ((x # xs) ! j))"
      proof (intro allI impI)
        fix j assume "j < length (x # xs)"
        then show "the (tc ((x # xs) ! Suc i)) \<le> the (tc ((x # xs) ! j))"
          using a(3,4) cx by (cases j) auto
      qed
      have 2: "\<forall>j < Suc i. the (tc ((x # xs) ! Suc i)) < the (tc ((x # xs) ! j))"
      proof (intro allI impI)
        fix j assume "j < Suc i"
        then show "the (tc ((x # xs) ! Suc i)) < the (tc ((x # xs) ! j))"
          using a(3,5) cx by (cases j) auto
      qed
      from a(1,2,3) True step have
        "Suc i < length (x # xs) \<and> find_best tc (Some b) (x # xs) = Some ((x # xs) ! Suc i) \<and>
           the (tc ((x # xs) ! Suc i)) < cb"
        by simp
      with 1 2 show ?thesis by blast
    qed
  next
    case False
    then have step: "find_best tc (Some b) (x # xs) = find_best tc (Some b) xs"
      using cx Cons.prems(2) by (simp add: js_less_def)
    from Cons.IH [OF sub Cons.prems(2)] show ?thesis
    proof (elim disjE conjE exE)
      assume a: "find_best tc (Some b) xs = Some b" "\<forall>y \<in> set xs. cb \<le> the (tc y)"
      with step False cx show ?thesis by auto
    next
      fix i
      assume a: "i < length xs" "find_best tc (Some b) xs = Some (xs ! i)" "the (tc (xs ! i)) < cb"
        "\<forall>j < length xs. the (tc (xs ! i)) \<le> the (tc (xs ! j))"
        "\<forall>j < i. the (tc (xs ! i)) < the (tc (xs ! j))"
      have 1: "\<forall>j < length (x # xs). the (tc ((x # xs) ! Suc i)) \<le> the (tc ((x # xs) ! j))"
      proof (intro allI impI)
        fix j assume "j < length (x # xs)"
        then show "the (tc ((x # xs) ! Suc i)) \<le> the (tc ((x # xs) ! j))"
          using a(3,4) cx False by (cases j) auto
      qed
      have 2: "\<forall>j < Suc i. the (tc ((x # xs) ! Suc i)) < the (tc ((x # xs) ! j))"
      proof (intro allI impI)
        fix j assume "j < Suc i"
        then show "the (tc ((x # xs) ! Suc i)) < the (tc ((x # xs) ! j))"
          using a(3,5) cx False by (cases j) auto
      qed
      from a(1,2,3) step have
        "Suc i < length (x # xs) \<and> find_best tc (Some b) (x # xs) = Some ((x # xs) ! Suc i) \<and>
           the (tc ((x # xs) ! Suc i)) < cb"
        by simp
      with 1 2 show ?thesis by blast
    qed
  qed
qed

lemma find_best_spec:
  assumes "set xs \<subseteq> dom tc" and "xs \<noteq> []"
  shows "\<exists>i < length xs. find_best tc None xs = Some (xs ! i) \<and>
            (\<forall>j < length xs. the (tc (xs ! i)) \<le> the (tc (xs ! j))) \<and>
            (\<forall>j < i. the (tc (xs ! i)) < the (tc (xs ! j)))"
proof -
  from assms(2) obtain x ys where xs: "xs = x # ys" by (cases xs) auto
  with assms(1) obtain cx where cx: "tc x = Some cx" by auto
  from xs assms(1) have sub: "set ys \<subseteq> dom tc" by simp
  have step: "find_best tc None xs = find_best tc (Some x) ys"
    by (simp add: xs)
  from find_best_Some_spec [OF sub cx] show ?thesis
  proof (elim disjE conjE exE)
    assume a: "find_best tc (Some x) ys = Some x" "\<forall>y \<in> set ys. cx \<le> the (tc y)"
    have "\<forall>j < length xs. the (tc (xs ! 0)) \<le> the (tc (xs ! j))"
    proof (intro allI impI)
      fix j assume "j < length xs"
      then show "the (tc (xs ! 0)) \<le> the (tc (xs ! j))"
        using a(2) cx xs by (cases j) auto
    qed
    with a(1) step xs have
      "0 < length xs \<and> find_best tc None xs = Some (xs ! 0) \<and>
         (\<forall>j < length xs. the (tc (xs ! 0)) \<le> the (tc (xs ! j))) \<and>
         (\<forall>j < 0. the (tc (xs ! 0)) < the (tc (xs ! j)))"
      by simp
    then show ?thesis by blast
  next
    fix i
    assume a: "i < length ys" "find_best tc (Some x) ys = Some (ys ! i)" "the (tc (ys ! i)) < cx"
      "\<forall>j < length ys. the (tc (ys ! i)) \<le> the (tc (ys ! j))"
      "\<forall>j < i. the (tc (ys ! i)) < the (tc (ys ! j))"
    have 1: "\<forall>j < length xs. the (tc (xs ! Suc i)) \<le> the (tc (xs ! j))"
    proof (intro allI impI)
      fix j assume "j < length xs"
      then show "the (tc (xs ! Suc i)) \<le> the (tc (xs ! j))"
        using a(3,4) cx xs by (cases j) auto
    qed
    have 2: "\<forall>j < Suc i. the (tc (xs ! Suc i)) < the (tc (xs ! j))"
    proof (intro allI impI)
      fix j assume "j < Suc i"
      then show "the (tc (xs ! Suc i)) < the (tc (xs ! j))"
        using a(3,5) cx xs by (cases j) auto
    qed
    from a(1,2) step xs have
      "Suc i < length xs \<and> find_best tc None xs = Some (xs ! Suc i)"
      by simp
    with 1 2 show ?thesis by blast
  qed
qed

text \<open>
  On ordinary keys, the scan of a non-empty open set returns a node whose
  \<open>totalCosts\<close> value is minimal, the first such node in the iteration (insertion)
  order of the open set: every node before it has a strictly larger value.
\<close>

lemma find_best_first_minimal:
  assumes "visited A start goal s" and "open_set s \<noteq> []"
  shows "\<exists>i < length (open_set s).
           find_best (totalCosts s) None (open_set s) = Some (open_set s ! i) \<and>
           (\<forall>j < length (open_set s). \<exists>ci cj.
              totalCosts s (open_set s ! i) = Some ci \<and> totalCosts s (open_set s ! j) = Some cj \<and>
              ci \<le> cj \<and> (j < i \<longrightarrow> ci < cj))"
proof -
  from visited_bookkeeping [OF assms(1)] have sub: "set (open_set s) \<subseteq> dom (totalCosts s)"
    by (auto simp: bookkeeping_def)
  from find_best_spec [OF sub assms(2)] obtain i where
    i: "i < length (open_set s)"
       "find_best (totalCosts s) None (open_set s) = Some (open_set s ! i)"
       "\<forall>j < length (open_set s). the (totalCosts s (open_set s ! i)) \<le> the (totalCosts s (open_set s ! j))"
       "\<forall>j < i. the (totalCosts s (open_set s ! i)) < the (totalCosts s (open_set s ! j))"
    by blast
  have def: "\<exists>c. totalCosts s (open_set s ! j) = Some c" if "j < length (open_set s)" for j
    using sub that by (auto simp: subset_iff dom_def)
  have "\<exists>ci cj. totalCosts s (open_set s ! i) = Some ci \<and> totalCosts s (open_set s ! j) = Some cj \<and>
              ci \<le> cj \<and> (j < i \<longrightarrow> ci < cj)" if "j < length (open_set s)" for j
  proof -
    from def [OF i(1)] obtain ci where ci: "totalCosts s (open_set s ! i) = Some ci" by blast
    from def [OF that] obtain cj where cj: "totalCosts s (open_set s ! j) = Some cj" by blast
    from i(3) that ci cj have "ci \<le> cj" by auto
    moreover from i(4) ci cj have "j < i \<longrightarrow> ci < cj" by auto
    ultimately show ?thesis using ci cj by blast
  qed
  with i(1,2) show ?thesis by blast
qed

section \<open>The shape of the result\<close>

lemma break_state:
  assumes "search_loop A start goal (initial_state start) = Some (Break best s)"
  shows "visited A start goal s \<and> best = goal \<and> goal \<in> set (open_set s) \<and>
         find_best (totalCosts s) None (open_set s) = Some goal"
proof -
  from search_loop_initial_result [OF assms] obtain t where
    t: "visited A start goal t" "iteration A start goal t = Break best s" by blast
  from t(2) have "best = goal \<and> s = t \<and> find_best (totalCosts t) None (open_set t) = Some goal"
    by (cases rule: iteration_cases) simp_all
  with t(1) show ?thesis by (auto dest: find_best_member)
qed

text \<open>
  C4: in every \<open>Path\<close> that \<open>findPath\<close> returns, \<open>cost\<close> and \<open>path\<close> are present
  exactly when \<open>found\<close> is true.
\<close>

theorem cost_and_path_present_iff_found:
  assumes "findPath A start goal = Some (Inr p)"
  shows "(cost p \<noteq> None \<longleftrightarrow> found p) \<and> (path p \<noteq> None \<longleftrightarrow> found p)"
proof (cases "search_loop A start goal (initial_state start)")
  case None
  with assms show ?thesis by (simp add: findPath_def)
next
  case (Some r)
  show ?thesis
  proof (cases r)
    case (NotFound n)
    with Some assms have "p = \<lparr>found = False, iterations = n, cost = None, path = None\<rparr>"
      by (simp add: findPath_def)
    then show ?thesis by simp
  next
    case (Break best s)
    with Some have loop: "search_loop A start goal (initial_state start) = Some (Break best s)"
      by simp
    from break_state [OF loop] have v: "visited A start goal s" and b: "best \<in> set (open_set s)"
      by auto
    from visited_bookkeeping [OF v] b have "linkCosts s best \<noteq> None"
      by (auto simp: bookkeeping_def)
    moreover from loop assms obtain ls where
      "p = \<lparr>found = True, iterations = iterations_st s, cost = linkCosts s best, path = Some ls\<rparr>"
      by (auto simp: findPath_def split: option.splits sum.splits)
    ultimately show ?thesis by simp
  next
    case (Throw e)
    with Some assms show ?thesis by (simp add: findPath_def)
  next
    case (Next s)
    with Some assms show ?thesis by (simp add: findPath_def)
  qed
qed

lemma one_link_result:
  "findPath (new_AStar (graph_links one_link_graph) None) ''a'' ''b'' =
     Some (Inr \<lparr>found = True, iterations = 2, cost = Some 1,
                path = Some [mk_link ''a'' ''b'' 1]\<rparr>)"
  by code_simp

theorem cost_and_path_present_iff_found_witness:
  "findPath (new_AStar (graph_links one_link_graph) None) ''a'' ''b'' =
     Some (Inr \<lparr>found = True, iterations = 2, cost = Some 1,
                path = Some [mk_link ''a'' ''b'' 1]\<rparr>) \<and>
   (cost \<lparr>found = True, iterations = 2, cost = Some 1, path = Some [mk_link ''a'' ''b'' 1]\<rparr>
      \<noteq> None \<longleftrightarrow>
    found \<lparr>found = True, iterations = 2, cost = Some 1, path = Some [mk_link ''a'' ''b'' 1]\<rparr>) \<and>
   (path \<lparr>found = True, iterations = 2, cost = Some 1, path = Some [mk_link ''a'' ''b'' 1]\<rparr>
      \<noteq> None \<longleftrightarrow>
    found \<lparr>found = True, iterations = 2, cost = Some 1, path = Some [mk_link ''a'' ''b'' 1]\<rparr>)"
  using cost_and_path_present_iff_found [OF one_link_result] one_link_result
  by blast

section \<open>Errors of the collaborators\<close>






lemma relax_links_error:
  "relax_links A start best s links = Inl e \<Longrightarrow> linkCosts s best \<noteq> None \<Longrightarrow> \<exists>x. e = Raised x"
proof (induction links arbitrary: s)
  case Nil
  then show ?case by simp
next
  case (Cons link links)
  show ?case
  proof (cases "relax A start best s link")
    case (Inl e')
    with Cons.prems(1) have "e' = e" by simp
    with Inl Cons.prems(2) show ?thesis
      by (auto simp: relax_def Let_def split: if_splits sum.splits)
  next
    case (Inr t)
    with Cons.prems(1) have 1: "relax_links A start best t links = Inl e" by simp
    from Inr Cons.prems(2) have "linkCosts t best \<noteq> None"
      by (cases rule: relax_cases) auto
    with 1 show ?thesis by (rule Cons.IH)
  qed
qed

lemma iteration_error:
  assumes "visited A start goal s" and "iteration A start goal s = Throw e"
  shows "\<exists>x. e = Raised x"
  using assms(2)
proof (cases rule: iteration_cases)
  case (relax_throw best links e')
  from find_best_member [OF relax_throw(1)] visited_bookkeeping [OF assms(1)]
  have "linkCosts s best \<noteq> None" by (auto simp: bookkeeping_def)
  with relax_throw(4,5) show ?thesis by (auto dest: relax_links_error)
qed simp_all

lemma findPath_no_UndefinedCost: "findPath A start goal \<noteq> Some (Inl UndefinedCost)"
proof
  assume a: "findPath A start goal = Some (Inl UndefinedCost)"
  show False
  proof (cases "search_loop A start goal (initial_state start)")
    case None
    with a show False by (simp add: findPath_def)
  next
    case (Some r)
    show False
    proof (cases r)
      case (Throw e)
      with Some a have e: "e = UndefinedCost" by (simp add: findPath_def)
      from search_loop_initial_result [OF Some] Throw obtain s where
        "visited A start goal s" "iteration A start goal s = Throw e" by blast
      from iteration_error [OF this] e show False by auto
    next
      case (Break best s)
      with Some a show False
        by (auto simp: findPath_def split: option.splits sum.splits
            dest!: trace_back_TypeError_only)
    qed (use Some a in \<open>simp_all add: findPath_def\<close>)
  qed
qed

section \<open>The chains of \<open>cameFrom\<close>\<close>

lemma path_cost_simps [simp]:
  "path_cost [] = 0" "path_cost (l # ls) = cost_l l + path_cost ls"
  "path_cost (xs @ ys) = path_cost xs + path_cost ys"
  by (simp_all add: path_cost_def)

lemma is_path_append:
  "is_path A u (xs @ ys) v \<longleftrightarrow> (\<exists>w. is_path A u xs w \<and> is_path A w ys v)"
  by (induction xs arbitrary: u) auto

lemma deriv_mono:
  "deriv A start cf lc C n ls \<Longrightarrow> C \<subseteq> C' \<Longrightarrow> deriv A start cf lc C' n ls"
  by (induction rule: deriv.induct) (auto intro: deriv.intros)

lemma deriv_update:
  "deriv A start cf lc C n ls \<Longrightarrow> t \<notin> C \<Longrightarrow> n \<noteq> t \<Longrightarrow>
     deriv A start (cf(t \<mapsto> x)) (lc(t \<mapsto> y)) C n ls"
proof (induction rule: deriv.induct)
  case deriv_start
  then show ?case by (auto intro: deriv.deriv_start)
next
  case (deriv_link n l ls)
  from deriv_link.hyps(3) deriv_link.prems(1) have ne: "from_l l \<noteq> t" by auto
  have "deriv A start (cf(t \<mapsto> x)) (lc(t \<mapsto> y)) C (from_l l) ls"
    using deriv_link.prems(1) ne by (rule deriv_link.IH)
  then show ?case
  proof (rule deriv.deriv_link [rotated 4])
    show "(cf(t \<mapsto> x)) n = Some (Some l)"
      using deriv_link.hyps(1) deriv_link.prems(2) by simp
    show "(lc(t \<mapsto> y)) n = Some (path_cost ls + cost_l l)"
      using deriv_link.hyps(6) deriv_link.prems(2) by simp
  qed (use deriv_link.hyps in simp_all)
qed

lemma deriv_path: "deriv A start cf lc C n ls \<Longrightarrow> is_path A start ls n"
  by (induction rule: deriv.induct) (auto simp: is_path_append)

lemma deriv_cost: "deriv A start cf lc C n ls \<Longrightarrow> lc n = Some (path_cost ls)"
  by (induction rule: deriv.induct) auto

lemma deriv_chain: "deriv A start cf lc C n ls \<Longrightarrow> chain_to_start cf start n ls"
  by (induction rule: deriv.induct) (auto intro: chain_to_start.intros)

lemma chain_trace_back:
  "chain_to_start cf start n ls \<Longrightarrow> trace_back cf (cf n) p = Some (Inr (ls @ p))"
proof (induction arbitrary: p rule: chain_to_start.induct)
  case chain_null
  then show ?case by (simp add: trace_back_null)
next
  case (chain_link n l ls)
  from chain_link.IH [of "l # p"] chain_link.hyps(1) show ?case
    by (simp add: trace_back_link)
qed

lemma derivable_initial: "derivable A start (initial_state start) C"
proof -
  have "deriv A start [start \<mapsto> None] [start \<mapsto> 0] C start []"
    by (rule deriv.deriv_start) simp_all
  then show ?thesis
    by (auto simp: derivable_def initial_state_def split: if_splits)
qed

lemma relax_derivable:
  assumes r: "relax A start best s link = Inr s'"
    and out: "out_link A best link"
    and lfq: "links_from_queried A" and nn: "no_negative_self_link A"
    and d: "derivable A start s (insert best (set (closed_set s)))"
    and b: "best \<in> dom (cameFrom s)"
  shows "derivable A start s' (insert best (set (closed_set s')))"
  using r
proof (cases rule: relax_cases)
  case closed
  with d show ?thesis by simp
next
  case (keep g)
  with d show ?thesis by (simp add: derivable_def)
next
  case (update g h)
  let ?C = "insert best (set (closed_set s))"
  let ?t = "to_l link"
  have "?t \<noteq> best"
  proof
    assume eq: "?t = best"
    with update(2,3) have "cost_l link < 0" by (auto simp: js_less_def)
    moreover from nn out eq have "0 \<le> cost_l link" by (auto simp: no_negative_self_link_def)
    ultimately show False by simp
  qed
  with update(1) have tC: "?t \<notin> ?C" by simp
  from b d obtain lsb where lsb: "deriv A start (cameFrom s) (linkCosts s) ?C best lsb"
    by (auto simp: derivable_def)
  from deriv_cost [OF lsb] update(2) have g: "g = path_cost lsb" by simp
  let ?cf = "(cameFrom s)(?t \<mapsto> Some link)"
  let ?lc = "(linkCosts s)(?t \<mapsto> g + cost_l link)"
  have stable: "deriv A start ?cf ?lc ?C n ls"
    if "deriv A start (cameFrom s) (linkCosts s) ?C n ls" "n \<noteq> ?t" for n ls
    using that(1) tC that(2) by (rule deriv_update)
  from lfq out have fr: "from_l link = best" by (auto simp: links_from_queried_def)
  have new: "deriv A start ?cf ?lc ?C ?t (lsb @ [link])"
  proof (rule deriv.deriv_link)
    show "?cf ?t = Some (Some link)" by simp
    show "to_l link = ?t" by simp
    show "from_l link \<in> ?C" using fr by simp
    show "out_link A (from_l link) link" using fr out by simp
    show "deriv A start ?cf ?lc ?C (from_l link) lsb"
      using stable [OF lsb \<open>?t \<noteq> best\<close> [symmetric]] fr by simp
    show "?lc ?t = Some (path_cost lsb + cost_l link)" using g by simp
  qed
  have "\<exists>ls. deriv A start ?cf ?lc ?C n ls" if "n \<in> dom ?cf" for n
  proof (cases "n = ?t")
    case True
    with new show ?thesis by blast
  next
    case False
    with that have "n \<in> dom (cameFrom s)" by auto
    with d obtain ls where "deriv A start (cameFrom s) (linkCosts s) ?C n ls"
      by (auto simp: derivable_def)
    from stable [OF this False] show ?thesis by blast
  qed
  with update(5) show ?thesis
    by (simp add: derivable_def)
qed

lemma relax_cameFrom_dom:
  "relax A start best s link = Inr s' \<Longrightarrow> dom (cameFrom s) \<subseteq> dom (cameFrom s')"
  by (erule relax_cases) auto

lemma relax_links_derivable:
  assumes "relax_links A start best s links = Inr s'"
    and "\<forall>l \<in> set links. out_link A best l"
    and "links_from_queried A" and "no_negative_self_link A"
    and "derivable A start s (insert best (set (closed_set s)))"
    and "best \<in> dom (cameFrom s)"
  shows "derivable A start s' (insert best (set (closed_set s')))"
  using assms
proof (induction links arbitrary: s)
  case Nil
  then show ?case by simp
next
  case (Cons link links)
  from Cons.prems(1) obtain t where
    t: "relax A start best s link = Inr t" "relax_links A start best t links = Inr s'"
    by (auto split: sum.splits)
  from Cons.prems(2) have out: "out_link A best link" and outs: "\<forall>l \<in> set links. out_link A best l"
    by simp_all
  have 1: "derivable A start t (insert best (set (closed_set t)))"
    using t(1) out Cons.prems(3,4,5,6) by (rule relax_derivable)
  have 2: "best \<in> dom (cameFrom t)"
    using relax_cameFrom_dom [OF t(1)] Cons.prems(6) by auto
  from Cons.IH [OF t(2) outs Cons.prems(3,4) 1 2] show ?case .
qed

lemma derivable_mono: "derivable A start s C \<Longrightarrow> C \<subseteq> C' \<Longrightarrow> derivable A start s C'"
  unfolding derivable_def by (meson deriv_mono)

lemma out_link_set: "calculateLinksForNode A n = Inr ls \<Longrightarrow> out_link A n l \<longleftrightarrow> l \<in> set ls"
  by (simp add: out_link_def)

lemma iteration_derivable:
  assumes it: "iteration A start goal s = Next s'"
    and "links_from_queried A" and "no_negative_self_link A"
    and bk: "bookkeeping s"
    and d: "derivable A start s (set (closed_set s))"
  shows "derivable A start s' (set (closed_set s'))"
  using it
proof (cases rule: iteration_cases)
  case (continue best links t)
  have 1: "derivable A start s (insert best (set (closed_set s)))"
    using d by (rule derivable_mono) auto
  from find_best_member [OF continue(1)] bk have 2: "best \<in> dom (cameFrom s)"
    by (auto simp: bookkeeping_def)
  from continue(3) have 3: "\<forall>l \<in> set links. out_link A best l"
    by (simp add: out_link_set)
  from relax_links_derivable [OF continue(4) 3 assms(2,3) 1 2]
  have "derivable A start t (insert best (set (closed_set t)))" .
  with continue(5) show ?thesis
    by (simp add: derivable_def)
qed simp_all

lemma visited_derivable:
  assumes "visited A start goal s" and "links_from_queried A" and "no_negative_self_link A"
  shows "derivable A start s (set (closed_set s))"
  using assms(1)
proof (induction rule: visited.induct)
  case visited_initial
  show ?case by (rule derivable_initial)
next
  case (visited_next s s')
  from visited_next(2) assms(2,3) visited_bookkeeping [OF visited_next(1)] visited_next(3)
  show ?case by (rule iteration_derivable)
qed

section \<open>Graphs given by a list of links\<close>

lemma out_link_graph_links:
  "out_link (new_AStar (graph_links g) h) n l \<longleftrightarrow> l \<in> set g \<and> from_l l = n"
  by (auto simp: out_link_def new_AStar_def graph_links_def)

lemma links_from_queried_graph_links: "links_from_queried (new_AStar (graph_links g) h)"
  by (simp add: links_from_queried_def out_link_graph_links)

lemma no_negative_self_link_graph_links:
  "\<forall>l \<in> set g. from_l l = to_l l \<longrightarrow> 0 \<le> cost_l l \<Longrightarrow>
     no_negative_self_link (new_AStar (graph_links g) h)"
  by (auto simp: no_negative_self_link_def out_link_graph_links)

lemma links_within_graph_links:
  "\<forall>l \<in> set g. from_l l \<in> N \<and> to_l l \<in> N \<Longrightarrow> links_within (new_AStar (graph_links g) h) N"
  by (auto simp: links_within_def out_link_graph_links)

section \<open>Termination\<close>

lemma relax_open_within:
  assumes "relax A start best s link = Inr s'" and "to_l link \<in> U" and "set (open_set s) \<subseteq> U"
  shows "set (open_set s') \<subseteq> U"
  using assms(1)
  by (cases rule: relax_cases) (use assms(2,3) in auto)

lemma relax_links_open_within:
  "relax_links A start best s links = Inr s' \<Longrightarrow> \<forall>l \<in> set links. to_l l \<in> U \<Longrightarrow>
     set (open_set s) \<subseteq> U \<Longrightarrow> set (open_set s') \<subseteq> U"
proof (induction links arbitrary: s)
  case Nil
  then show ?case by simp
next
  case (Cons link links)
  from Cons.prems(1) obtain t where
    t: "relax A start best s link = Inr t" "relax_links A start best t links = Inr s'"
    by (auto split: sum.splits)
  from Cons.prems(2) have 1: "to_l link \<in> U" and 2: "\<forall>l \<in> set links. to_l l \<in> U" by simp_all
  from relax_open_within [OF t(1) 1 Cons.prems(3)] have "set (open_set t) \<subseteq> U" .
  with t(2) 2 show ?case by (rule Cons.IH)
qed

lemma iteration_progress:
  assumes it: "iteration A start goal s = Next s'" and lw: "links_within A N"
    and bk: "bookkeeping s"
    and sub: "set (open_set s) \<union> set (closed_set s) \<subseteq> insert start N"
  shows "\<exists>best. best \<in> insert start N \<and> best \<notin> set (closed_set s) \<and>
           set (closed_set s') = insert best (set (closed_set s)) \<and>
           set (open_set s') \<subseteq> insert start N"
  using it
proof (cases rule: iteration_cases)
  case (continue best links t)
  from find_best_member [OF continue(1)] have bo: "best \<in> set (open_set s)" .
  with bk sub have 1: "best \<in> insert start N" "best \<notin> set (closed_set s)"
    by (auto simp: bookkeeping_def)
  have "\<forall>l \<in> set links. to_l l \<in> insert start N"
  proof
    fix l assume "l \<in> set links"
    with continue(3) have "out_link A best l" by (simp add: out_link_set)
    with lw show "to_l l \<in> insert start N" by (simp add: links_within_def)
  qed
  with continue(4) have "set (open_set t) \<subseteq> insert start N"
    by (rule relax_links_open_within) (use sub in auto)
  with continue(5) relax_links_closed_set [OF continue(4)] 1 show ?thesis
    by auto
qed simp_all

lemma search_loop_terminates_from:
  assumes fin: "finite N" and lw: "links_within A N"
  shows "bookkeeping s \<Longrightarrow> set (open_set s) \<union> set (closed_set s) \<subseteq> insert start N \<Longrightarrow>
     \<exists>r. search_loop A start goal s = Some r"
proof (induction "card (insert start N - set (closed_set s))" arbitrary: s rule: less_induct)
  case less
  show ?case
  proof (cases "iteration A start goal s")
    case (NotFound n)
    then show ?thesis by (auto dest: search_loop_NotFound)
  next
    case (Break b t)
    then show ?thesis by (auto dest: search_loop_Break)
  next
    case (Throw e)
    then show ?thesis by (auto dest: search_loop_Throw)
  next
    case (Next s')
    from iteration_progress [OF Next lw less.prems] obtain best where
      best: "best \<in> insert start N" "best \<notin> set (closed_set s)"
        "set (closed_set s') = insert best (set (closed_set s))"
        "set (open_set s') \<subseteq> insert start N"
      by blast
    have "insert start N - set (closed_set s') \<subset> insert start N - set (closed_set s)"
      using best(1,2,3) by auto
    moreover from fin have "finite (insert start N - set (closed_set s))" by simp
    ultimately have 1: "card (insert start N - set (closed_set s')) <
        card (insert start N - set (closed_set s))"
      by (rule psubset_card_mono [rotated])
    have 2: "bookkeeping s'"
      using Next less.prems(1) by (rule iteration_bookkeeping)
    have 3: "set (open_set s') \<union> set (closed_set s') \<subseteq> insert start N"
      using best less.prems(2) by auto
    from less.hyps [OF 1 2 3] search_loop_Next [OF Next] show ?thesis
      by simp
  qed
qed

lemma search_loop_terminates:
  assumes "finite N" and "links_within A N"
  shows "\<exists>r. search_loop A start goal (initial_state start) = Some r"
  using assms
proof (rule search_loop_terminates_from)
  show "bookkeeping (initial_state start)" by (rule bookkeeping_initial)
  show "set (open_set (initial_state start)) \<union> set (closed_set (initial_state start))
      \<subseteq> insert start N"
    by (simp add: initial_state_def)
qed

lemma visited_trace_back:
  assumes v: "visited A start goal s" and lfq: "links_from_queried A"
    and nn: "no_negative_self_link A" and n: "n \<in> dom (cameFrom s)"
  shows "\<exists>ls. chain_to_start (cameFrom s) start n ls \<and>
           trace_back (cameFrom s) (cameFrom s n) [] = Some (Inr ls)"
proof -
  from visited_derivable [OF v lfq nn] n obtain ls where
    "deriv A start (cameFrom s) (linkCosts s) (set (closed_set s)) n ls"
    by (auto simp: derivable_def)
  then have c: "chain_to_start (cameFrom s) start n ls" by (rule deriv_chain)
  from chain_trace_back [OF c, of "[]"] c show ?thesis by auto
qed

lemma findPath_returns:
  assumes loop: "search_loop A start goal (initial_state start) = Some r"
    and lfq: "links_from_queried A" and nn: "no_negative_self_link A"
  shows "\<exists>x. findPath A start goal = Some x"
proof (cases r)
  case (NotFound n)
  with loop show ?thesis by (simp add: findPath_def)
next
  case (Throw e)
  with loop show ?thesis by (simp add: findPath_def)
next
  case (Next s)
  with search_loop_initial_result [OF loop] show ?thesis by auto
next
  case (Break best s)
  with loop have l: "search_loop A start goal (initial_state start) = Some (Break best s)"
    by simp
  from break_state [OF l] have v: "visited A start goal s" and b: "best \<in> set (open_set s)"
    by auto
  from visited_bookkeeping [OF v] b have "best \<in> dom (cameFrom s)"
    by (auto simp: bookkeeping_def)
  from visited_trace_back [OF v lfq nn this] obtain ls where
    "trace_back (cameFrom s) (cameFrom s best) [] = (Some (Inr ls) :: ('a failure + Link list) option)"
    by blast
  with l show ?thesis by (simp add: findPath_def)
qed

lemma misleading_step:
  "iteration (new_AStar misleading_links None) ''a'' ''b'' (initial_state ''a'') =
     Next misleading_state"
  by (simp add: eval_defs misleading_links_def misleading_state_def)

lemma misleading_break:
  "iteration (new_AStar misleading_links None) ''a'' ''b'' misleading_state =
     Break ''b'' misleading_state"
  by (simp add: iteration_def misleading_state_def js_less_def)

lemma inner_loop_step1:
  "iteration (new_AStar (graph_links inner_loop_graph) None) ''a'' ''c'' (initial_state ''a'') =
     Next one_link_state"
  by (simp add: eval_defs inner_loop_graph_def one_link_state_def)

lemma inner_loop_step2:
  "iteration (new_AStar (graph_links inner_loop_graph) None) ''a'' ''c'' one_link_state =
     Next inner_loop_state"
  by (simp add: eval_defs inner_loop_graph_def one_link_state_def inner_loop_state_def)

lemma inner_loop_break:
  "iteration (new_AStar (graph_links inner_loop_graph) None) ''a'' ''c'' inner_loop_state =
     Break ''c'' inner_loop_state"
  by (simp add: iteration_def inner_loop_state_def js_less_def)

section \<open>Optimality of the returned cost\<close>

lemma consistent_no_negative_self_link:
  "consistent_heuristic A start \<Longrightarrow> no_negative_self_link A"
  unfolding consistent_heuristic_def no_negative_self_link_def
proof (intro allI impI)
  fix n l
  assume c: "(\<forall>n. \<exists>v. calculateHeuristicCostToTraverseLink A start n = Inr v) \<and>
     (\<forall>n l. out_link A n l \<longrightarrow>
        heuristic_value A start n \<le> cost_l l + heuristic_value A start (to_l l))"
    and o: "out_link A n l" and t: "to_l l = n"
  from c o have "heuristic_value A start n \<le> cost_l l + heuristic_value A start (to_l l)"
    by blast
  with t show "0 \<le> cost_l l" by simp
qed

text \<open>
  Along a path a consistent heuristic drops by no more than the cost of the path.
\<close>

lemma consistent_path:
  assumes "consistent_heuristic A start"
  shows "is_path A u ls v \<Longrightarrow> heuristic_value A start u \<le> path_cost ls + heuristic_value A start v"
proof (induction ls arbitrary: u)
  case Nil
  then show ?case by simp
next
  case (Cons l ls)
  from Cons.prems have o: "out_link A u l" and p: "is_path A (to_l l) ls v" by simp_all
  from assms o have "heuristic_value A start u \<le> cost_l l + heuristic_value A start (to_l l)"
    by (simp add: consistent_heuristic_def)
  moreover from Cons.IH [OF p]
  have "heuristic_value A start (to_l l) \<le> path_cost ls + heuristic_value A start v" .
  ultimately show ?case by simp
qed

text \<open>
  A path from a node of \<open>C\<close> to a node outside \<open>C\<close> has a first link that leaves \<open>C\<close>.
\<close>

lemma path_leaves:
  "is_path A u ls v \<Longrightarrow> u \<in> C \<Longrightarrow> v \<notin> C \<Longrightarrow>
     \<exists>ls1 l ls2. ls = ls1 @ l # ls2 \<and> is_path A u ls1 (from_l l) \<and> from_l l \<in> C \<and>
        out_link A (from_l l) l \<and> to_l l \<notin> C \<and> is_path A (to_l l) ls2 v"
proof (induction ls arbitrary: u)
  case Nil
  then show ?case by simp
next
  case (Cons l ls)
  from Cons.prems(1) have o: "out_link A u l" and f: "from_l l = u"
    and p: "is_path A (to_l l) ls v" by simp_all
  show ?case
  proof (cases "to_l l \<in> C")
    case False
    have "l # ls = [] @ l # ls \<and> is_path A u [] (from_l l) \<and> from_l l \<in> C \<and>
        out_link A (from_l l) l \<and> to_l l \<notin> C \<and> is_path A (to_l l) ls v"
      using o f p False Cons.prems(2) by simp
    then show ?thesis by blast
  next
    case True
    from Cons.IH [OF p True Cons.prems(3)] obtain ls1 l' ls2 where
      x: "ls = ls1 @ l' # ls2" "is_path A (to_l l) ls1 (from_l l')" "from_l l' \<in> C"
        "out_link A (from_l l') l'" "to_l l' \<notin> C" "is_path A (to_l l') ls2 v"
      by blast
    have "l # ls = (l # ls1) @ l' # ls2 \<and> is_path A u (l # ls1) (from_l l') \<and> from_l l' \<in> C \<and>
        out_link A (from_l l') l' \<and> to_l l' \<notin> C \<and> is_path A (to_l l') ls2 v"
      using x o f by simp
    then show ?thesis by blast
  qed
qed

lemma find_best_minimal:
  assumes "set xs \<subseteq> dom tc" and "find_best tc None xs = Some b" and "x \<in> set xs"
  shows "the (tc b) \<le> the (tc x)"
proof -
  from assms(3) have ne: "xs \<noteq> []" by auto
  from find_best_spec [OF assms(1) ne] assms(2) obtain i where
    i: "b = xs ! i" "\<forall>j < length xs. the (tc (xs ! i)) \<le> the (tc (xs ! j))"
    by auto
  from assms(3) obtain j where "j < length xs" "xs ! j = x"
    by (auto simp: in_set_conv_nth)
  with i show ?thesis by auto
qed

text \<open>
  The heart of the proof: the node selected by the scan carries the least cost of any
  path from the start. Any path to it leaves the closed set through a relaxed link
  into an open node, which the scan did not prefer.
\<close>

lemma selection_optimal:
  assumes inv: "search_inv A start goal s" and c: "consistent_heuristic A start"
    and fb: "find_best (totalCosts s) None (open_set s) = Some best"
    and p: "is_path A start ls best"
  shows "the (linkCosts s best) \<le> path_cost ls"
proof -
  from inv have bk: "bookkeeping s" and tot: "totals_ok A start s"
    and opt: "costs_optimal A start s (set (closed_set s))"
    and rel: "\<forall>u \<in> set (closed_set s). links_relaxed A s u"
    and st: "start \<in> set (closed_set s) \<or> s = initial_state start"
    by (simp_all add: search_inv_def)
  from find_best_member [OF fb] have bo: "best \<in> set (open_set s)" .
  show ?thesis
  proof (cases "start \<in> set (closed_set s)")
    case False
    with st have s: "s = initial_state start" by simp
    with bo have "best = start" by (simp add: initial_state_def)
    with s have g: "linkCosts s best = Some 0" by (simp add: initial_state_def)
    from consistent_path [OF c p] \<open>best = start\<close> have "0 \<le> path_cost ls" by simp
    with g show ?thesis by simp
  next
    case True
    from bo bk have bnc: "best \<notin> set (closed_set s)" by (auto simp: bookkeeping_def)
    from path_leaves [OF p True bnc] obtain ls1 l ls2 where
      x: "ls = ls1 @ l # ls2" "is_path A start ls1 (from_l l)" "from_l l \<in> set (closed_set s)"
        "out_link A (from_l l) l" "to_l l \<notin> set (closed_set s)" "is_path A (to_l l) ls2 best"
      by blast
    from opt x(2,3) have 1: "the (linkCosts s (from_l l)) \<le> path_cost ls1"
      by (simp add: costs_optimal_def)
    from rel x(3,4) obtain gv where
      gv: "linkCosts s (to_l l) = Some gv" "gv \<le> the (linkCosts s (from_l l)) + cost_l l"
      by (auto simp: links_relaxed_def)
    from gv(1) bk x(5) have mo: "to_l l \<in> set (open_set s)"
      by (auto simp: bookkeeping_def)
    from True x(5) have ms: "to_l l \<noteq> start" by auto
    from True bnc have bs: "best \<noteq> start" by auto
    from bk have sub: "set (open_set s) \<subseteq> dom (totalCosts s)" by (auto simp: bookkeeping_def)
    from tot sub mo ms gv(1)
    have tm: "totalCosts s (to_l l) = Some (gv + heuristic_value A start (to_l l))"
      by (auto simp: totals_ok_def)
    from tot sub bo bs
    have tb: "totalCosts s best = Some (the (linkCosts s best) + heuristic_value A start best)"
      by (auto simp: totals_ok_def)
    from find_best_minimal [OF sub fb mo] tm tb
    have 2: "the (linkCosts s best) + heuristic_value A start best \<le>
        gv + heuristic_value A start (to_l l)"
      by simp
    from consistent_path [OF c x(6)]
    have 3: "heuristic_value A start (to_l l) \<le> path_cost ls2 + heuristic_value A start best" .
    from 1 2 3 gv(2) x(1) show ?thesis by simp
  qed
qed

lemma relax_best_cost:
  assumes "relax A start best s link = Inr s'" and "out_link A best link"
    and "no_negative_self_link A"
  shows "linkCosts s' best = linkCosts s best"
  using assms(1)
proof (cases rule: relax_cases)
  case (update g h)
  have "to_l link \<noteq> best"
  proof
    assume eq: "to_l link = best"
    with update(2,3) have "cost_l link < 0" by (auto simp: js_less_def)
    moreover from assms(2,3) eq have "0 \<le> cost_l link"
      by (auto simp: no_negative_self_link_def)
    ultimately show False by simp
  qed
  with update(5) show ?thesis by simp
qed simp_all

lemma relax_cost_decreases:
  assumes "relax A start best s link = Inr s'" and "linkCosts s n = Some x"
  shows "\<exists>y. linkCosts s' n = Some y \<and> y \<le> x"
  using assms(1)
proof (cases rule: relax_cases)
  case (update g h)
  with assms(2) show ?thesis by (cases "n = to_l link") (auto simp: js_less_def)
qed (use assms(2) in simp_all)

lemma relax_totals_ok:
  assumes "relax A start best s link = Inr s'" and "totals_ok A start s"
  shows "totals_ok A start s'"
  using assms(1)
proof (cases rule: relax_cases)
  case (update g h)
  from update(4) have "heuristic_value A start (to_l link) = h"
    by (simp add: heuristic_value_def)
  with assms(2) update(5) show ?thesis
    by (auto simp: totals_ok_def)
qed (use assms(2) in \<open>simp_all add: totals_ok_def\<close>)

lemma relax_established:
  assumes "relax A start best s link = Inr s'" and "linkCosts s best = Some gb"
    and "to_l link \<in> set (closed_set s) \<Longrightarrow>
           \<exists>gv. linkCosts s (to_l link) = Some gv \<and> gv \<le> gb + cost_l link"
  shows "\<exists>gv. linkCosts s' (to_l link) = Some gv \<and> gv \<le> gb + cost_l link"
  using assms(1)
proof (cases rule: relax_cases)
  case closed
  with assms(3) show ?thesis by simp
next
  case (update g h)
  with assms(2) show ?thesis by simp
next
  case (keep g)
  with assms(2) show ?thesis by (auto simp: js_less_def)
qed

lemma relax_linkCosts_closed:
  "relax A start best s link = Inr s' \<Longrightarrow> u \<in> set (closed_set s) \<Longrightarrow>
     linkCosts s' u = linkCosts s u"
  by (drule (1) relax_closed_node) (simp add: same_entries_def)

text \<open>
  Processing one link of \<open>best\<close> keeps the invariant and leaves the link relaxed.
\<close>

lemma relax_relax_inv:
  assumes r: "relax A start best s link = Inr s'" and out: "out_link A best link"
    and lfq: "links_from_queried A" and c: "consistent_heuristic A start"
    and inv: "relax_inv A start best gb s"
  shows "relax_inv A start best gb s' \<and>
         (\<exists>gv. linkCosts s' (to_l link) = Some gv \<and> gv \<le> gb + cost_l link)"
proof -
  from c have nn: "no_negative_self_link A" by (rule consistent_no_negative_self_link)
  from inv have bk: "bookkeeping s"
    and d: "derivable A start s (insert best (set (closed_set s)))"
    and tot: "totals_ok A start s"
    and opt: "costs_optimal A start s (insert best (set (closed_set s)))"
    and rel: "\<forall>u \<in> set (closed_set s). links_relaxed A s u"
    and gb: "linkCosts s best = Some gb" and bd: "best \<in> dom (cameFrom s)"
    by (simp_all add: relax_inv_def)
  have cs: "closed_set s' = closed_set s" using r by (rule relax_closed_set)
  have same: "linkCosts s' u = linkCosts s u" if "u \<in> insert best (set (closed_set s))" for u
    using that relax_best_cost [OF r out nn] relax_linkCosts_closed [OF r] by auto
  have 1: "bookkeeping s'" using r bk by (rule relax_bookkeeping)
  have 2: "derivable A start s' (insert best (set (closed_set s')))"
    using r out lfq nn d bd by (rule relax_derivable)
  have 3: "totals_ok A start s'" using r tot by (rule relax_totals_ok)
  have 4: "costs_optimal A start s' (insert best (set (closed_set s')))"
    using opt same by (simp add: costs_optimal_def cs)
  have 5: "\<forall>u \<in> set (closed_set s'). links_relaxed A s' u"
  proof
    fix u assume "u \<in> set (closed_set s')"
    then have u: "u \<in> set (closed_set s)" by (simp add: cs)
    show "links_relaxed A s' u"
      unfolding links_relaxed_def
    proof (intro allI impI)
      fix l assume "out_link A u l"
      with rel u obtain gv where
        gv: "linkCosts s (to_l l) = Some gv" "gv \<le> the (linkCosts s u) + cost_l l"
        by (auto simp: links_relaxed_def)
      from relax_cost_decreases [OF r gv(1)] obtain y where
        "linkCosts s' (to_l l) = Some y" "y \<le> gv" by blast
      with gv(2) same [of u] u
      show "\<exists>gv. linkCosts s' (to_l l) = Some gv \<and> gv \<le> the (linkCosts s' u) + cost_l l"
        by auto
    qed
  qed
  have 6: "linkCosts s' best = Some gb" using same [of best] gb by simp
  have 7: "best \<in> dom (cameFrom s')" using relax_cameFrom_dom [OF r] bd by auto
  have 8: "\<exists>gv. linkCosts s' (to_l link) = Some gv \<and> gv \<le> gb + cost_l link"
    using r gb
  proof (rule relax_established)
    assume tc: "to_l link \<in> set (closed_set s)"
    from bd d obtain lsb where
      lsb: "deriv A start (cameFrom s) (linkCosts s) (insert best (set (closed_set s))) best lsb"
      by (auto simp: derivable_def)
    from deriv_cost [OF lsb] gb have cost: "path_cost lsb = gb" by simp
    from lfq out have "from_l link = best" by (simp add: links_from_queried_def)
    with deriv_path [OF lsb] out have "is_path A start (lsb @ [link]) (to_l link)"
      by (auto simp: is_path_append)
    moreover from tc have "to_l link \<in> insert best (set (closed_set s))" by simp
    ultimately have "the (linkCosts s (to_l link)) \<le> path_cost (lsb @ [link])"
      using opt unfolding costs_optimal_def by blast
    moreover from tc bk have "to_l link \<in> dom (linkCosts s)" by (simp add: bookkeeping_def)
    then obtain gv where "linkCosts s (to_l link) = Some gv" by blast
    ultimately show "\<exists>gv. linkCosts s (to_l link) = Some gv \<and> gv \<le> gb + cost_l link"
      using cost by auto
  qed
  from 1 2 3 4 5 6 7 8 show ?thesis by (simp add: relax_inv_def)
qed

lemma relax_links_cost_decreases:
  "relax_links A start best s links = Inr s' \<Longrightarrow> linkCosts s n = Some x \<Longrightarrow>
     \<exists>y. linkCosts s' n = Some y \<and> y \<le> x"
proof (induction links arbitrary: s x)
  case Nil
  then show ?case by simp
next
  case (Cons link links)
  from Cons.prems(1) obtain t where
    t: "relax A start best s link = Inr t" "relax_links A start best t links = Inr s'"
    by (auto split: sum.splits)
  from relax_cost_decreases [OF t(1) Cons.prems(2)] obtain y where
    y: "linkCosts t n = Some y" "y \<le> x" by blast
  from Cons.IH [OF t(2) y(1)] obtain z where "linkCosts s' n = Some z" "z \<le> y" by blast
  with y(2) show ?case by auto
qed

lemma relax_links_relax_inv:
  assumes "relax_links A start best s links = Inr s'"
    and "\<forall>l \<in> set links. out_link A best l"
    and lfq: "links_from_queried A" and c: "consistent_heuristic A start"
    and "relax_inv A start best gb s"
  shows "relax_inv A start best gb s' \<and>
         (\<forall>l \<in> set links. \<exists>gv. linkCosts s' (to_l l) = Some gv \<and> gv \<le> gb + cost_l l)"
  using assms(1,2,5)
proof (induction links arbitrary: s)
  case Nil
  then show ?case by simp
next
  case (Cons link links)
  from Cons.prems(1) obtain t where
    t: "relax A start best s link = Inr t" "relax_links A start best t links = Inr s'"
    by (auto split: sum.splits)
  from Cons.prems(2) have out: "out_link A best link" and outs: "\<forall>l \<in> set links. out_link A best l"
    by simp_all
  from relax_relax_inv [OF t(1) out lfq c Cons.prems(3)] obtain gv where
    it: "relax_inv A start best gb t" and
    gv: "linkCosts t (to_l link) = Some gv" "gv \<le> gb + cost_l link"
    by blast
  from Cons.IH [OF t(2) outs it] have
    is': "relax_inv A start best gb s'" and
    rest: "\<forall>l \<in> set links. \<exists>gv. linkCosts s' (to_l l) = Some gv \<and> gv \<le> gb + cost_l l"
    by simp_all
  from relax_links_cost_decreases [OF t(2) gv(1)] gv(2)
  have "\<exists>gv. linkCosts s' (to_l link) = Some gv \<and> gv \<le> gb + cost_l link"
    by auto
  with is' rest show ?case by simp
qed

lemma search_inv_initial: "search_inv A start goal (initial_state start)"
proof -
  have "bookkeeping (initial_state start)" by (rule bookkeeping_initial)
  moreover have "derivable A start (initial_state start) (set (closed_set (initial_state start)))"
    by (rule derivable_initial)
  moreover have "totals_ok A start (initial_state start)"
    by (simp add: totals_ok_def initial_state_def)
  moreover have "closed_set (initial_state start) = []"
    by (simp add: initial_state_def)
  ultimately show ?thesis
    by (simp add: search_inv_def costs_optimal_def)
qed

text \<open>
  One pass through the loop body keeps the invariant.
\<close>

lemma iteration_search_inv:
  assumes it: "iteration A start goal s = Next s'"
    and lfq: "links_from_queried A" and c: "consistent_heuristic A start"
    and inv: "search_inv A start goal s"
  shows "search_inv A start goal s'"
  using it
proof (cases rule: iteration_cases)
  case (continue best links t)
  from inv have bk: "bookkeeping s"
    and d: "derivable A start s (set (closed_set s))"
    and tot: "totals_ok A start s"
    and opt: "costs_optimal A start s (set (closed_set s))"
    and rel: "\<forall>u \<in> set (closed_set s). links_relaxed A s u"
    and st: "start \<in> set (closed_set s) \<or> s = initial_state start"
    and gl: "goal \<notin> set (closed_set s)"
    by (simp_all add: search_inv_def)
  from find_best_member [OF continue(1)] have bo: "best \<in> set (open_set s)" .
  with bk have "best \<in> dom (linkCosts s)" by (simp add: bookkeeping_def)
  then obtain gb where gb: "linkCosts s best = Some gb" by blast
  from bo bk have bd: "best \<in> dom (cameFrom s)" by (auto simp: bookkeeping_def)
  have bopt: "\<forall>ls. is_path A start ls best \<longrightarrow> the (linkCosts s best) \<le> path_cost ls"
    using selection_optimal [OF inv c continue(1)] by blast
  have "relax_inv A start best gb s"
    unfolding relax_inv_def
  proof (intro conjI)
    show "derivable A start s (insert best (set (closed_set s)))"
      using d by (rule derivable_mono) auto
    show "costs_optimal A start s (insert best (set (closed_set s)))"
      using opt bopt by (simp add: costs_optimal_def)
  qed (use bk tot rel gb bd in simp_all)
  moreover from continue(3) have outs: "\<forall>l \<in> set links. out_link A best l"
    by (simp add: out_link_set)
  ultimately have
    t: "relax_inv A start best gb t" and
    est: "\<forall>l \<in> set links. \<exists>gv. linkCosts t (to_l l) = Some gv \<and> gv \<le> gb + cost_l l"
    using relax_links_relax_inv [OF continue(4) _ lfq c] by blast+
  from t have tbk: "bookkeeping t"
    and td: "derivable A start t (insert best (set (closed_set t)))"
    and ttot: "totals_ok A start t"
    and topt: "costs_optimal A start t (insert best (set (closed_set t)))"
    and trel: "\<forall>u \<in> set (closed_set t). links_relaxed A t u"
    and tgb: "linkCosts t best = Some gb"
    by (simp_all add: relax_inv_def)
  have cs: "closed_set t = closed_set s" using continue(4) by (rule relax_links_closed_set)
  from continue(5) have s': "s' = t\<lparr>closed_set := set_add (closed_set t) best,
      open_set := set_delete (open_set t) best, iterations_st := iterations_st t + 1\<rparr>"
    by simp
  have 1: "bookkeeping s'" using it bk by (rule iteration_bookkeeping)
  have 2: "derivable A start s' (set (closed_set s'))"
    using td by (simp add: s' derivable_def)
  have 3: "totals_ok A start s'" using ttot by (simp add: s' totals_ok_def)
  have 4: "costs_optimal A start s' (set (closed_set s'))"
    using topt by (simp add: s' costs_optimal_def)
  have brel: "links_relaxed A t best"
    unfolding links_relaxed_def
  proof (intro allI impI)
    fix l assume "out_link A best l"
    with continue(3) have "l \<in> set links" by (simp add: out_link_set)
    with est tgb show "\<exists>gv. linkCosts t (to_l l) = Some gv \<and> gv \<le> the (linkCosts t best) + cost_l l"
      by auto
  qed
  have 5: "\<forall>u \<in> set (closed_set s'). links_relaxed A s' u"
    using trel brel by (auto simp: s' links_relaxed_def)
  have 6: "start \<in> set (closed_set s')"
  proof (cases "start \<in> set (closed_set s)")
    case True
    then show ?thesis by (simp add: s' cs)
  next
    case False
    with st have "s = initial_state start" by simp
    with bo have "best = start" by (simp add: initial_state_def)
    then show ?thesis by (simp add: s')
  qed
  have 7: "goal \<notin> set (closed_set s')"
    using gl continue(2) by (simp add: s' cs)
  from 1 2 3 4 5 6 7 show ?thesis by (simp add: search_inv_def)
qed simp_all

lemma visited_search_inv:
  assumes "visited A start goal s" and "links_from_queried A" and "consistent_heuristic A start"
  shows "search_inv A start goal s"
  using assms(1)
proof (induction rule: visited.induct)
  case visited_initial
  show ?case by (rule search_inv_initial)
next
  case (visited_next s s')
  from visited_next(2) assms(2,3) visited_next(3) show ?case by (rule iteration_search_inv)
qed

text \<open>
  The result for any consistent heuristic: a found path is a path of least cost.
\<close>

lemma found_cost_optimal:
  fixes A :: "'e AStar"
  assumes lfq: "links_from_queried A" and c: "consistent_heuristic A start"
    and fp: "findPath A start goal = Some (Inr p)" and f: "found p"
  shows "\<exists>ls c. path p = Some ls \<and> cost p = Some c \<and> path_cost ls = c \<and>
           is_path A start ls goal \<and> (\<forall>ls'. is_path A start ls' goal \<longrightarrow> c \<le> path_cost ls')"
proof (cases "search_loop A start goal (initial_state start)")
  case None
  with fp show ?thesis by (simp add: findPath_def)
next
  case (Some r)
  show ?thesis
  proof (cases r)
    case (NotFound n)
    with Some fp f show ?thesis by (auto simp: findPath_def)
  next
    case (Throw e)
    with Some fp show ?thesis by (simp add: findPath_def)
  next
    case (Next s)
    with Some fp show ?thesis by (simp add: findPath_def)
  next
    case (Break best s)
    with Some have loop: "search_loop A start goal (initial_state start) = Some (Break best s)"
      by simp
    from break_state [OF loop] have v: "visited A start goal s" and bg: "best = goal"
      and go: "goal \<in> set (open_set s)"
      and fb: "find_best (totalCosts s) None (open_set s) = Some goal"
      by auto
    from visited_search_inv [OF v lfq c] have inv: "search_inv A start goal s" .
    then have bk: "bookkeeping s" and d: "derivable A start s (set (closed_set s))"
      by (simp_all add: search_inv_def)
    from go bk have "goal \<in> dom (cameFrom s)" by (auto simp: bookkeeping_def)
    with d obtain ls where
      ls: "deriv A start (cameFrom s) (linkCosts s) (set (closed_set s)) goal ls"
      by (auto simp: derivable_def)
    from chain_trace_back [OF deriv_chain [OF ls], of "[]"]
    have tb: "trace_back (cameFrom s) (cameFrom s goal) [] =
        (Some (Inr ls) :: ('e failure + Link list) option)"
      by simp
    from loop tb bg fp
    have p: "p = \<lparr>found = True, iterations = iterations_st s, cost = linkCosts s goal,
        path = Some ls\<rparr>"
      by (simp add: findPath_def)
    from deriv_cost [OF ls] have cost: "linkCosts s goal = Some (path_cost ls)" .
    have "\<forall>ls'. is_path A start ls' goal \<longrightarrow> path_cost ls \<le> path_cost ls'"
      using selection_optimal [OF inv c fb] cost by simp
    with p cost deriv_path [OF ls] show ?thesis by simp
  qed
qed

lemma out_link_new_AStar:
  "out_link (new_AStar links h) n l \<longleftrightarrow> (case links n of Inl e \<Rightarrow> False | Inr ls \<Rightarrow> l \<in> set ls)"
  by (simp add: out_link_def new_AStar_def)

lemma is_path_new_AStar:
  "is_path (new_AStar links (Some h)) u ls v = is_path (new_AStar links None) u ls v"
  by (induction ls arbitrary: u) (simp_all add: out_link_new_AStar)

lemma links_from_queried_new_AStar:
  "links_from_queried (new_AStar links (Some h)) = links_from_queried (new_AStar links None)"
  by (simp add: links_from_queried_def out_link_new_AStar)

lemma links_within_new_AStar:
  "links_within (new_AStar links (Some h)) N = links_within (new_AStar links None) N"
  by (simp add: links_within_def out_link_new_AStar)

lemma expander_total_new_AStar:
  "expander_total (new_AStar links (Some h)) = expander_total (new_AStar links None)"
  by (simp add: expander_total_def new_AStar_def)

lemma zero_heuristic_consistent:
  "nonnegative_costs (new_AStar links None) \<Longrightarrow> consistent_heuristic (new_AStar links None) start"
  by (simp add: consistent_heuristic_def nonnegative_costs_def heuristic_value_def new_AStar_def
      out_link_def)

lemma relax_no_throw:
  assumes "relax A start best s link = Inl e" and "linkCosts s best \<noteq> None"
  shows "\<exists>x. calculateHeuristicCostToTraverseLink A start (to_l link) = Inl x"
proof (cases "calculateHeuristicCostToTraverseLink A start (to_l link)")
  case (Inl x)
  then show ?thesis by blast
next
  case (Inr h)
  from assms(2) obtain g where "linkCosts s best = Some g" by blast
  with Inr assms(1) show ?thesis
    by (simp add: relax_def Let_def split: if_splits)
qed

lemma relax_keeps_best_cost_defined:
  "relax A start best s link = Inr s' \<Longrightarrow> linkCosts s best \<noteq> None \<Longrightarrow> linkCosts s' best \<noteq> None"
  by (erule relax_cases) auto

lemma relax_links_no_throw:
  "relax_links A start best s links = Inl e \<Longrightarrow> linkCosts s best \<noteq> None \<Longrightarrow>
     \<exists>x n. calculateHeuristicCostToTraverseLink A start n = Inl x"
proof (induction links arbitrary: s)
  case Nil
  then show ?case by simp
next
  case (Cons link links)
  show ?case
  proof (cases "relax A start best s link")
    case (Inl e')
    from relax_no_throw [OF Inl Cons.prems(2)] show ?thesis by blast
  next
    case (Inr t)
    with Cons.prems(1) have 1: "relax_links A start best t links = Inl e" by simp
    from relax_keeps_best_cost_defined [OF Inr Cons.prems(2)] have "linkCosts t best \<noteq> None" .
    with 1 show ?thesis by (rule Cons.IH)
  qed
qed

text \<open>
  When the open set is empty, every node reachable from a closed node is closed.
\<close>

lemma closed_under_paths:
  assumes inv: "search_inv A start goal s" and e: "open_set s = []"
  shows "is_path A u ls v \<Longrightarrow> u \<in> set (closed_set s) \<Longrightarrow> v \<in> set (closed_set s)"
proof (induction ls arbitrary: u)
  case Nil
  then show ?case by simp
next
  case (Cons l ls)
  from Cons.prems(1) have o: "out_link A u l" and p: "is_path A (to_l l) ls v" by simp_all
  from inv have bk: "bookkeeping s" and rel: "\<forall>u \<in> set (closed_set s). links_relaxed A s u"
    by (simp_all add: search_inv_def)
  from rel Cons.prems(2) o obtain gv where "linkCosts s (to_l l) = Some gv"
    by (auto simp: links_relaxed_def)
  then have "to_l l \<in> dom (linkCosts s)" by blast
  with bk e have "to_l l \<in> set (closed_set s)" by (simp add: bookkeeping_def)
  with p show ?case by (rule Cons.IH)
qed

text \<open>
  In a finite graph with a reachable goal, \<open>findPath\<close> returns and finds the goal.
\<close>

lemma found_when_reachable:
  fixes A :: "'e AStar"
  assumes fin: "finite N" and lw: "links_within A N" and tot: "expander_total A"
    and lfq: "links_from_queried A" and c: "consistent_heuristic A start"
    and reach: "is_path A start ls0 goal"
  shows "\<exists>p. findPath A start goal = Some (Inr p) \<and> found p"
proof -
  from search_loop_terminates [OF fin lw] obtain r where
    loop: "search_loop A start goal (initial_state start) = Some r" by blast
  from search_loop_initial_result [OF loop] obtain s where
    v: "visited A start goal s" and it: "iteration A start goal s = r" by blast
  from visited_search_inv [OF v lfq c] have inv: "search_inv A start goal s" .
  then have bk: "bookkeeping s" by (simp add: search_inv_def)
  from c have nn: "no_negative_self_link A" by (rule consistent_no_negative_self_link)
  from it show ?thesis
  proof (cases rule: iteration_cases)
    case not_found
    from inv not_found(1) have "start \<in> set (closed_set s)"
      by (auto simp: search_inv_def initial_state_def)
    with closed_under_paths [OF inv not_found(1) reach] have "goal \<in> set (closed_set s)" .
    with inv show ?thesis by (simp add: search_inv_def)
  next
    case break
    from find_best_member [OF break(1)] bk have "goal \<in> dom (cameFrom s)"
      by (auto simp: bookkeeping_def)
    from visited_trace_back [OF v lfq nn this] obtain ls where
      "trace_back (cameFrom s) (cameFrom s goal) [] =
         (Some (Inr ls) :: ('e failure + Link list) option)"
      by blast
    with loop break(2) show ?thesis by (simp add: findPath_def)
  next
    case (links_throw best e)
    from tot obtain ls where "calculateLinksForNode A best = Inr ls"
      unfolding expander_total_def by blast
    with links_throw(3) show ?thesis by simp
  next
    case (relax_throw best links e)
    from find_best_member [OF relax_throw(1)] bk have "linkCosts s best \<noteq> None"
      by (auto simp: bookkeeping_def)
    from relax_links_no_throw [OF relax_throw(4) this] obtain x n where
      x: "calculateHeuristicCostToTraverseLink A start n = Inl x" by blast
    from c obtain v where "calculateHeuristicCostToTraverseLink A start n = Inr v"
      unfolding consistent_heuristic_def by blast
    with x show ?thesis by simp
  next
    case (continue best links s')
    with search_loop_initial_result [OF loop] show ?thesis by auto
  qed
qed

text \<open>
  On ordinary keys and with exact sums: when the links only mention finitely many
  nodes, the expander never fails and returns links that leave the queried node, no
  cost is negative and the goal is reachable, \<open>findPath\<close> with a heuristic that never
  fails and is consistent along the links finds the goal and returns the same cost
  as \<open>findPath\<close> with the default zero heuristic.
\<close>

lemma same_cost_on_maps:
  assumes "finite N" and "links_within (new_AStar links None) N"
    and "expander_total (new_AStar links None)"
    and "links_from_queried (new_AStar links None)"
    and "nonnegative_costs (new_AStar links None)"
    and "consistent_heuristic (new_AStar links (Some h)) start"
    and "is_path (new_AStar links None) start ls0 goal"
  shows "\<exists>p q c. findPath (new_AStar links (Some h)) start goal = Some (Inr p) \<and>
           findPath (new_AStar links None) start goal = Some (Inr q) \<and>
           found p \<and> found q \<and> cost p = Some c \<and> cost q = Some c"
proof -
  let ?A = "new_AStar links (Some h)" and ?B = "new_AStar links None"
  have lwA: "links_within ?A N" using assms(2) by (simp add: links_within_new_AStar)
  have totA: "expander_total ?A" using assms(3) by (simp add: expander_total_new_AStar)
  have lfqA: "links_from_queried ?A" using assms(4) by (simp add: links_from_queried_new_AStar)
  have reachA: "is_path ?A start ls0 goal" using assms(7) by (simp add: is_path_new_AStar)
  have cB: "consistent_heuristic ?B start" using assms(5) by (rule zero_heuristic_consistent)
  from found_when_reachable [OF assms(1) lwA totA lfqA assms(6) reachA] obtain p where
    p: "findPath ?A start goal = Some (Inr p)" "found p" by blast
  from found_when_reachable [OF assms(1,2,3,4) cB assms(7)] obtain q where
    q: "findPath ?B start goal = Some (Inr q)" "found q" by blast
  from found_cost_optimal [OF lfqA assms(6) p] obtain lp cp where
    lp: "cost p = Some cp" "path_cost lp = cp" "is_path ?A start lp goal"
      "\<forall>ls'. is_path ?A start ls' goal \<longrightarrow> cp \<le> path_cost ls'"
    by blast
  from found_cost_optimal [OF assms(4) cB q] obtain lq cq where
    lq: "cost q = Some cq" "path_cost lq = cq" "is_path ?B start lq goal"
      "\<forall>ls'. is_path ?B start ls' goal \<longrightarrow> cq \<le> path_cost ls'"
    by blast
  from lp(3) have "is_path ?B start lp goal" by (simp add: is_path_new_AStar)
  with lq(4) lp(2) have 1: "cq \<le> cp" by auto
  from lq(3) have "is_path ?A start lq goal" by (simp add: is_path_new_AStar)
  with lp(4) lq(2) have 2: "cp \<le> cq" by auto
  from 1 2 have "cp = cq" by simp
  with p q lp(1) lq(1) show ?thesis by blast
qed

lemma nonnegative_costs_graph_links:
  "\<forall>l \<in> set g. 0 \<le> cost_l l \<Longrightarrow> nonnegative_costs (new_AStar (graph_links g) h)"
  by (auto simp: nonnegative_costs_def out_link_graph_links)

lemma expander_total_graph_links: "expander_total (new_AStar (graph_links g) h)"
  by (simp add: expander_total_def new_AStar_def graph_links_def)

lemma consistent_heuristic_graph_links:
  assumes "\<forall>n. \<exists>v. h start n = Inr v"
    and "\<forall>l \<in> set g. heuristic_value (new_AStar (graph_links g) (Some h)) start (from_l l) \<le>
           cost_l l + heuristic_value (new_AStar (graph_links g) (Some h)) start (to_l l)"
  shows "consistent_heuristic (new_AStar (graph_links g) (Some h)) start"
  unfolding consistent_heuristic_def
proof (intro conjI allI impI)
  fix n
  from assms(1) show "\<exists>v. calculateHeuristicCostToTraverseLink (new_AStar (graph_links g) (Some h)) start n = Inr v"
    by (simp add: new_AStar_def)
next
  fix n l
  assume "out_link (new_AStar (graph_links g) (Some h)) n l"
  then have "l \<in> set g" "from_l l = n" by (simp_all add: out_link_graph_links)
  with assms(2) show "heuristic_value (new_AStar (graph_links g) (Some h)) start n \<le>
      cost_l l + heuristic_value (new_AStar (graph_links g) (Some h)) start (to_l l)"
    by auto
qed

lemma path_cost_nonnegative:
  assumes "nonnegative_costs A"
  shows "is_path A u ls v \<Longrightarrow> 0 \<le> path_cost ls"
proof (induction ls arbitrary: u)
  case Nil
  then show ?case by simp
next
  case (Cons l ls)
  from Cons.prems have "out_link A u l" "is_path A (to_l l) ls v" by simp_all
  with assms Cons.IH show ?case by (auto simp: nonnegative_costs_def)
qed

lemma diamond_result:
  "findPath (new_AStar (graph_links diamond_graph) None) ''a'' ''d'' =
     Some (Inr \<lparr>found = True, iterations = 4, cost = Some 3,
                path = Some [mk_link ''a'' ''c'' 1, mk_link ''c'' ''d'' 2]\<rparr>)"
  by code_simp

section \<open>Searching with a heuristic\<close>

lemma first_link_bound:
  assumes "nonnegative_costs A" and "is_path A u ls v" and "u \<noteq> v"
    and "\<forall>l. out_link A u l \<longrightarrow> k \<le> cost_l l"
  shows "k \<le> path_cost ls"
proof (cases ls)
  case Nil
  with assms(2,3) show ?thesis by simp
next
  case (Cons l ls')
  with assms(2) have o: "out_link A u l" and p: "is_path A (to_l l) ls' v" by simp_all
  from path_cost_nonnegative [OF assms(1) p] assms(4) o Cons show ?thesis by auto
qed

lemma alphabet_indices:
  "index_of alphabet ''a'' = 0" "index_of alphabet ''b'' = 1" "index_of alphabet ''c'' = 2"
  "index_of alphabet ''w'' = 22" "index_of alphabet ''x'' = 23" "index_of alphabet ''y'' = 24"
  "index_of alphabet ''z'' = 25"
  by code_simp+

lemma opposite_consistent:
  "consistent_heuristic (new_AStar (graph_links opposite_graph) (Some alphabet_heuristic)) ''a''"
proof (rule consistent_heuristic_graph_links)
  show "\<forall>n. \<exists>v. alphabet_heuristic ''a'' n = Inr v"
    by (simp add: alphabet_heuristic_def)
  show "\<forall>l \<in> set opposite_graph.
      heuristic_value (new_AStar (graph_links opposite_graph) (Some alphabet_heuristic)) ''a'' (from_l l) \<le>
      cost_l l + heuristic_value (new_AStar (graph_links opposite_graph) (Some alphabet_heuristic)) ''a'' (to_l l)"
    by (simp add: opposite_graph_def mk_link_def heuristic_value_def new_AStar_def
        alphabet_heuristic_def alphabet_indices)
qed

lemma detour_nonnegative: "nonnegative_costs (new_AStar (graph_links detour_graph) h)"
  by (rule nonnegative_costs_graph_links) (simp add: detour_graph_def mk_link_def)

lemma tie_nonnegative: "nonnegative_costs (new_AStar (graph_links tie_graph) h)"
  by (rule nonnegative_costs_graph_links) (simp add: tie_graph_def mk_link_def)

lemma detour_from_a:
  assumes "is_path (new_AStar (graph_links detour_graph) h) ''a'' ls ''g''"
  shows "3 \<le> path_cost ls"
proof (cases ls)
  case Nil
  with assms show ?thesis by simp
next
  case (Cons l ls')
  with assms have l: "l \<in> set detour_graph" "from_l l = ''a''"
    and p: "is_path (new_AStar (graph_links detour_graph) h) (to_l l) ls' ''g''"
    by (simp_all add: out_link_graph_links)
  from l have l': "to_l l = ''b''" "cost_l l = 1"
    by (auto simp: detour_graph_def mk_link_def)
  have "10 \<le> path_cost ls'"
  proof (rule first_link_bound [OF detour_nonnegative])
    show "is_path (new_AStar (graph_links detour_graph) h) ''b'' ls' ''g''"
      using p l' by simp
    show "''b'' \<noteq> ''g''" by simp
    show "\<forall>l. out_link (new_AStar (graph_links detour_graph) h) ''b'' l \<longrightarrow> 10 \<le> cost_l l"
      by (auto simp: out_link_graph_links detour_graph_def mk_link_def)
  qed
  with Cons l' show ?thesis by simp
qed

lemma detour_admissible:
  "admissible_heuristic (new_AStar (graph_links detour_graph) (Some detour_heuristic)) ''s'' ''g''"
  unfolding admissible_heuristic_def
proof (intro conjI allI impI)
  let ?A = "new_AStar (graph_links detour_graph) (Some detour_heuristic)"
  fix x y
  show "\<exists>v. calculateHeuristicCostToTraverseLink ?A x y = Inr v \<and> 0 \<le> v"
    by (simp add: new_AStar_def detour_heuristic_def)
next
  let ?A = "new_AStar (graph_links detour_graph) (Some detour_heuristic)"
  fix n ls
  assume p: "is_path ?A n ls ''g''"
  show "heuristic_value ?A ''s'' n \<le> path_cost ls"
  proof (cases "n = ''a''")
    case True
    with p have "3 \<le> path_cost ls" by (simp add: detour_from_a)
    with True show ?thesis
      by (simp add: heuristic_value_def new_AStar_def detour_heuristic_def)
  next
    case False
    with path_cost_nonnegative [OF detour_nonnegative p] show ?thesis
      by (simp add: heuristic_value_def new_AStar_def detour_heuristic_def)
  qed
next
  let ?A = "new_AStar (graph_links detour_graph) (Some detour_heuristic)"
  fix x y ls
  assume p: "is_path ?A x ls y"
  show "heuristic_value ?A x y \<le> path_cost ls"
  proof (cases "x = ''s'' \<and> y = ''a''")
    case True
    have "3 \<le> path_cost ls"
    proof (rule first_link_bound [OF detour_nonnegative])
      show "is_path ?A ''s'' ls ''a''" using p True by simp
      show "''s'' \<noteq> ''a''" by simp
      show "\<forall>l. out_link ?A ''s'' l \<longrightarrow> 3 \<le> cost_l l"
        by (auto simp: out_link_graph_links detour_graph_def mk_link_def)
    qed
    with True show ?thesis
      by (simp add: heuristic_value_def new_AStar_def detour_heuristic_def)
  next
    case False
    with path_cost_nonnegative [OF detour_nonnegative p] show ?thesis
      by (auto simp: heuristic_value_def new_AStar_def detour_heuristic_def)
  qed
qed

lemma tie_admissible:
  "admissible_heuristic (new_AStar (graph_links tie_graph) (Some tie_heuristic)) ''s'' ''g''"
  unfolding admissible_heuristic_def
proof (intro conjI allI impI)
  let ?A = "new_AStar (graph_links tie_graph) (Some tie_heuristic)"
  fix x y
  show "\<exists>v. calculateHeuristicCostToTraverseLink ?A x y = Inr v \<and> 0 \<le> v"
    by (simp add: new_AStar_def tie_heuristic_def)
next
  let ?A = "new_AStar (graph_links tie_graph) (Some tie_heuristic)"
  fix n ls
  assume p: "is_path ?A n ls ''g''"
  show "heuristic_value ?A ''s'' n \<le> path_cost ls"
  proof (cases "n = ''x''")
    case True
    have "1 \<le> path_cost ls"
    proof (rule first_link_bound [OF tie_nonnegative])
      show "is_path ?A ''x'' ls ''g''" using p True by simp
      show "''x'' \<noteq> ''g''" by simp
      show "\<forall>l. out_link ?A ''x'' l \<longrightarrow> 1 \<le> cost_l l"
        by (auto simp: out_link_graph_links tie_graph_def mk_link_def)
    qed
    with True show ?thesis
      by (simp add: heuristic_value_def new_AStar_def tie_heuristic_def)
  next
    case False
    with path_cost_nonnegative [OF tie_nonnegative p] show ?thesis
      by (simp add: heuristic_value_def new_AStar_def tie_heuristic_def)
  qed
next
  let ?A = "new_AStar (graph_links tie_graph) (Some tie_heuristic)"
  fix x y ls
  assume p: "is_path ?A x ls y"
  show "heuristic_value ?A x y \<le> path_cost ls"
  proof (cases "x = ''s'' \<and> y = ''x''")
    case True
    have "1 \<le> path_cost ls"
    proof (rule first_link_bound [OF tie_nonnegative])
      show "is_path ?A ''s'' ls ''x''" using p True by simp
      show "''s'' \<noteq> ''x''" by simp
      show "\<forall>l. out_link ?A ''s'' l \<longrightarrow> 1 \<le> cost_l l"
        by (auto simp: out_link_graph_links tie_graph_def mk_link_def)
    qed
    with True show ?thesis
      by (simp add: heuristic_value_def new_AStar_def tie_heuristic_def)
  next
    case False
    with path_cost_nonnegative [OF tie_nonnegative p] show ?thesis
      by (auto simp: heuristic_value_def new_AStar_def tie_heuristic_def)
  qed
qed

lemma tie_consistent:
  "consistent_heuristic (new_AStar (graph_links tie_graph) (Some tie_heuristic)) ''s''"
proof (rule consistent_heuristic_graph_links)
  show "\<forall>n. \<exists>v. tie_heuristic ''s'' n = Inr v"
    by (simp add: tie_heuristic_def)
  show "\<forall>l \<in> set tie_graph.
      heuristic_value (new_AStar (graph_links tie_graph) (Some tie_heuristic)) ''s'' (from_l l) \<le>
      cost_l l + heuristic_value (new_AStar (graph_links tie_graph) (Some tie_heuristic)) ''s'' (to_l l)"
    by (simp add: tie_graph_def mk_link_def heuristic_value_def new_AStar_def tie_heuristic_def)
qed

section \<open>The test suite\<close>

text \<open>
  The model returns what the six tests of the repository expect (the third and the
  fourth are \<open>one_link_result\<close> and \<open>diamond_result\<close> above).
\<close>

lemma test_no_links_from_start:
  "findPath (new_AStar (graph_links []) None) ''a'' ''c'' =
     Some (Inr \<lparr>found = False, iterations = 2, cost = None, path = None\<rparr>)"
  by code_simp

lemma test_start_and_goal_identical:
  "findPath (new_AStar (graph_links []) None) ''a'' ''a'' =
     Some (Inr \<lparr>found = True, iterations = 1, cost = Some 0, path = Some []\<rparr>)"
  by code_simp

lemma test_opposite_direction_dijkstra:
  "findPath (new_AStar (graph_links opposite_graph) None) ''a'' ''c'' =
     Some (Inr \<lparr>found = True, iterations = 7, cost = Some 15,
                path = Some [mk_link ''a'' ''b'' 10, mk_link ''b'' ''c'' 5]\<rparr>)"
  by code_simp

lemma test_opposite_direction_heuristic:
  "findPath (new_AStar (graph_links opposite_graph) (Some alphabet_heuristic)) ''a'' ''c'' =
     Some (Inr \<lparr>found = True, iterations = 3, cost = Some 15,
                path = Some [mk_link ''a'' ''b'' 10, mk_link ''b'' ''c'' 5]\<rparr>)"
  by code_simp

section \<open>Agreement of the two models\<close>

text \<open>
  On a search whose nodes are plain keys, the model with objects does what the first
  model does, step by step. When the nodes are only settable (a node may be named
  \<open>hasOwnProperty\<close>), the model with objects either does the same or throws a
  \<open>TypeError\<close> from the call of the shadowed method.
\<close>

lemma js_of_state_simps [simp]:
  "js_cameFrom (js_of_state s) = cameFrom s" "js_proto (js_of_state s) = ObjectProto"
  "js_totalCosts (js_of_state s) = totalCosts s" "js_linkCosts (js_of_state s) = linkCosts s"
  "js_open (js_of_state s) = open_set s" "js_closed (js_of_state s) = closed_set s"
  "js_iterations (js_of_state s) = iterations_st s"
  by (simp_all add: js_of_state_def)

lemma js_of_state_inject: "js_of_state s = js_of_state t \<longleftrightarrow> s = t"
  by (cases s, cases t) (auto simp: js_of_state_def)

lemma initial_js_plain:
  "start \<noteq> ''__proto__'' \<Longrightarrow> initial_js start = js_of_state (initial_state start)"
  by (simp add: initial_js_def js_of_state_def initial_state_def cameFrom_write_def number_write_def)

lemma store_js_plain:
  assumes "to_l link \<noteq> ''__proto__''"
  shows "store_js (js_of_state s\<lparr>js_linkCosts := lc, js_totalCosts := tc\<rparr>) link =
     js_of_state (s\<lparr>linkCosts := lc, totalCosts := tc,
        cameFrom := (cameFrom s)(to_l link \<mapsto> Some link),
        open_set := set_add (open_set s) (to_l link)\<rparr>)"
  using assms by (simp add: store_js_def cameFrom_write_def js_of_state_def)

lemma open_update_js:
  "(js_of_state s)\<lparr>js_open := xs\<rparr> = js_of_state (s\<lparr>open_set := xs\<rparr>)"
  by (simp add: js_of_state_def)

lemma relax_js_agrees:
  assumes np: "to_l link \<noteq> ''__proto__''" and h: "linkCosts s ''hasOwnProperty'' = None"
    and b: "linkCosts s best \<noteq> None"
  shows "relax_js A start best (js_of_state s) link =
     map_sum js_of_failure js_of_state (relax A start best s link)"
proof (cases "to_l link \<in> set (closed_set s)")
  case True
  then show ?thesis by (simp add: relax_js_def relax_def)
next
  case False
  from b obtain g where g: "linkCosts s best = Some g" by blast
  have own: "has_own_property (linkCosts s) (to_l link) =
      (Inr (linkCosts s (to_l link) \<noteq> None) :: 'a js_failure + bool)"
    using h by (simp add: has_own_property_def)
  show ?thesis
  proof (cases "linkCosts s (to_l link) = None \<or>
      js_less (Some (g + cost_l link)) (linkCosts s (to_l link))")
    case upd: True
    show ?thesis
    proof (cases "calculateHeuristicCostToTraverseLink A start (to_l link)")
      case (Inl e)
      with False g own upd show ?thesis
        by (auto simp: relax_js_def relax_def Let_def)
    next
      case (Inr hv)
      with False g own upd np show ?thesis
        by (auto simp: relax_js_def relax_def Let_def number_write_def store_js_plain)
    qed
  next
    case keep: False
    with False g own show ?thesis
      by (auto simp: relax_js_def relax_def Let_def open_update_js)
  qed
qed

lemma relax_js_shadowed:
  assumes "to_l link \<notin> set (closed_set s)" and "linkCosts s ''hasOwnProperty'' \<noteq> None"
  shows "relax_js A start best (js_of_state s) link = Inl JsTypeError"
  using assms by (simp add: relax_js_def has_own_property_def)

lemma relax_js_closed:
  assumes "to_l link \<in> set (closed_set s)"
  shows "relax_js A start best (js_of_state s) link = Inr (js_of_state s)"
    and "relax A start best s link = Inr s"
  using assms by (simp_all add: relax_js_def relax_def)

lemma relax_js_simulates:
  assumes "to_l link \<noteq> ''__proto__''" and "linkCosts s best \<noteq> None"
  shows "relax_js A start best (js_of_state s) link = Inl JsTypeError \<or>
         relax_js A start best (js_of_state s) link =
           map_sum js_of_failure js_of_state (relax A start best s link)"
proof (cases "to_l link \<in> set (closed_set s)")
  case True
  then show ?thesis by (simp add: relax_js_closed)
next
  case False
  show ?thesis
  proof (cases "linkCosts s ''hasOwnProperty''")
    case None
    from relax_js_agrees [OF assms(1) None assms(2), of A start] show ?thesis by simp
  next
    case (Some v)
    with False show ?thesis by (simp add: relax_js_shadowed)
  qed
qed

lemma relax_links_js_simulates:
  "\<forall>l \<in> set links. to_l l \<noteq> ''__proto__'' \<Longrightarrow> linkCosts s best \<noteq> None \<Longrightarrow>
   relax_links_js A start best (js_of_state s) links = Inl JsTypeError \<or>
   relax_links_js A start best (js_of_state s) links =
     map_sum js_of_failure js_of_state (relax_links A start best s links)"
proof (induction links arbitrary: s)
  case Nil
  then show ?case by simp
next
  case (Cons link links)
  from Cons.prems(1) have p: "to_l link \<noteq> ''__proto__''"
    and ps: "\<forall>l \<in> set links. to_l l \<noteq> ''__proto__''"
    by simp_all
  from relax_js_simulates [OF p Cons.prems(2), of A start]
  consider (shadowed) "relax_js A start best (js_of_state s) link = Inl JsTypeError"
    | (same) "relax_js A start best (js_of_state s) link =
           map_sum js_of_failure js_of_state (relax A start best s link)"
    by blast
  then show ?case
  proof cases
    case shadowed
    then show ?thesis by simp
  next
    case same
    show ?thesis
    proof (cases "relax A start best s link")
      case (Inl e)
      with same show ?thesis by simp
    next
      case (Inr t)
      from relax_keeps_best_cost_defined [OF Inr Cons.prems(2)]
      have "linkCosts t best \<noteq> None" .
      from Cons.IH [OF ps this] same Inr show ?thesis by simp
    qed
  qed
qed

lemma relax_keeps_no_hasOwnProperty:
  assumes "relax A start best s link = Inr s'" and "to_l link \<noteq> ''hasOwnProperty''"
    and "linkCosts s ''hasOwnProperty'' = None"
  shows "linkCosts s' ''hasOwnProperty'' = None"
  using assms(1)
  by (cases rule: relax_cases) (use assms(2,3) in auto)

lemma relax_links_js_agrees:
  "\<forall>l \<in> set links. plain_key (to_l l) \<Longrightarrow> linkCosts s ''hasOwnProperty'' = None \<Longrightarrow>
   linkCosts s best \<noteq> None \<Longrightarrow>
   relax_links_js A start best (js_of_state s) links =
     map_sum js_of_failure js_of_state (relax_links A start best s links)"
proof (induction links arbitrary: s)
  case Nil
  then show ?case by simp
next
  case (Cons link links)
  from Cons.prems(1) have p: "to_l link \<noteq> ''__proto__''" and q: "to_l link \<noteq> ''hasOwnProperty''"
    and ps: "\<forall>l \<in> set links. plain_key (to_l l)"
    by (simp_all add: plain_key_def)
  note step = relax_js_agrees [OF p Cons.prems(2,3), of A start]
  show ?case
  proof (cases "relax A start best s link")
    case (Inl e)
    with step show ?thesis by simp
  next
    case (Inr t)
    from relax_keeps_no_hasOwnProperty [OF Inr q Cons.prems(2)]
    have 1: "linkCosts t ''hasOwnProperty'' = None" .
    from relax_keeps_best_cost_defined [OF Inr Cons.prems(3)]
    have 2: "linkCosts t best \<noteq> None" .
    from Cons.IH [OF ps 1 2] step Inr show ?thesis by simp
  qed
qed

lemma plain_state_no_hasOwnProperty:
  assumes "bookkeeping s" and "plain_state s"
  shows "linkCosts s ''hasOwnProperty'' = None"
proof (rule ccontr)
  assume "linkCosts s ''hasOwnProperty'' \<noteq> None"
  then have "''hasOwnProperty'' \<in> dom (linkCosts s)" by blast
  with assms(1) have "''hasOwnProperty'' \<in> set (open_set s) \<union> set (closed_set s)"
    by (simp add: bookkeeping_def)
  with assms(2) have "plain_key ''hasOwnProperty''" by (simp add: plain_state_def)
  then show False by (simp add: plain_key_def)
qed

lemma closing_update_js:
  "(js_of_state s)\<lparr>js_closed := cs, js_open := os, js_iterations := n\<rparr> =
     js_of_state (s\<lparr>closed_set := cs, open_set := os, iterations_st := n\<rparr>)"
  by (simp add: js_of_state_def)

lemma best_cost_defined:
  assumes "bookkeeping s" and "find_best (totalCosts s) None (open_set s) = Some best"
  shows "linkCosts s best \<noteq> None"
proof -
  from find_best_member [OF assms(2)] have "best \<in> set (open_set s)" by simp
  with assms(1) have "best \<in> dom (linkCosts s)" by (simp add: bookkeeping_def)
  then show ?thesis by blast
qed

lemma iteration_js_relaxing:
  assumes "find_best (totalCosts s) None (open_set s) = Some best" and "goal \<noteq> best"
    and "calculateLinksForNode A best = Inr links"
  shows "iteration_js A start goal (js_of_state s) =
      (case relax_links_js A start best (js_of_state s) links of
         Inl e \<Rightarrow> JsThrow e
       | Inr s' \<Rightarrow> JsNext (s'\<lparr>js_closed := set_add (js_closed s') best,
                               js_open := set_delete (js_open s') best,
                               js_iterations := js_iterations s' + 1\<rparr>))"
    and "iteration A start goal s =
      (case relax_links A start best s links of
         Inl e \<Rightarrow> Throw e
       | Inr s' \<Rightarrow> Next (s'\<lparr>closed_set := set_add (closed_set s') best,
                             open_set := set_delete (open_set s') best,
                             iterations_st := iterations_st s' + 1\<rparr>))"
  using assms by (simp_all add: iteration_js_def iteration_def)

lemma iteration_js_not_relaxing:
  assumes "find_best (totalCosts s) None (open_set s) = None \<or>
           find_best (totalCosts s) None (open_set s) = Some goal \<or>
           (\<exists>best e. find_best (totalCosts s) None (open_set s) = Some best \<and>
              calculateLinksForNode A best = Inl e)"
  shows "iteration_js A start goal (js_of_state s) = js_of_step (iteration A start goal s)"
  using assms by (auto simp: iteration_js_def iteration_def)

lemma iteration_js_simulates:
  assumes bk: "bookkeeping s"
    and pl: "\<forall>n l. out_link A n l \<longrightarrow> to_l l \<noteq> ''__proto__''"
  shows "iteration_js A start goal (js_of_state s) = JsThrow JsTypeError \<or>
         iteration_js A start goal (js_of_state s) = js_of_step (iteration A start goal s)"
proof (cases "\<exists>best links. find_best (totalCosts s) None (open_set s) = Some best \<and>
    goal \<noteq> best \<and> calculateLinksForNode A best = Inr links")
  case False
  then have "find_best (totalCosts s) None (open_set s) = None \<or>
           find_best (totalCosts s) None (open_set s) = Some goal \<or>
           (\<exists>best e. find_best (totalCosts s) None (open_set s) = Some best \<and>
              calculateLinksForNode A best = Inl e)"
  proof (cases "find_best (totalCosts s) None (open_set s)")
    case None
    then show ?thesis by simp
  next
    case (Some best)
    show ?thesis
    proof (cases "calculateLinksForNode A best")
      case (Inl e)
      with Some show ?thesis by blast
    next
      case (Inr links)
      with False Some have "goal = best" by blast
      with Some show ?thesis by simp
    qed
  qed
  then have "iteration_js A start goal (js_of_state s) = js_of_step (iteration A start goal s)"
    by (rule iteration_js_not_relaxing)
  then show ?thesis by simp
next
  case True
  then obtain best links where b: "find_best (totalCosts s) None (open_set s) = Some best"
    "goal \<noteq> best" "calculateLinksForNode A best = Inr links"
    by blast
  from pl out_link_set [OF b(3)] have 1: "\<forall>l \<in> set links. to_l l \<noteq> ''__proto__''" by blast
  note 2 = best_cost_defined [OF bk b(1)]
  from relax_links_js_simulates [OF 1 2, of A start]
  consider "relax_links_js A start best (js_of_state s) links = Inl JsTypeError"
    | "relax_links_js A start best (js_of_state s) links =
        map_sum js_of_failure js_of_state (relax_links A start best s links)"
    by blast
  then show ?thesis
  proof cases
    case 1
    then show ?thesis by (simp add: iteration_js_relaxing(1) [OF b])
  next
    case 2
    then show ?thesis
      by (cases "relax_links A start best s links")
        (simp_all add: iteration_js_relaxing [OF b] closing_update_js)
  qed
qed

lemma iteration_js_agrees:
  assumes bk: "bookkeeping s" and ps: "plain_state s"
    and pl: "\<forall>n l. out_link A n l \<longrightarrow> plain_key (to_l l)"
  shows "iteration_js A start goal (js_of_state s) = js_of_step (iteration A start goal s)"
proof (cases "\<exists>best links. find_best (totalCosts s) None (open_set s) = Some best \<and>
    goal \<noteq> best \<and> calculateLinksForNode A best = Inr links")
  case False
  then have "find_best (totalCosts s) None (open_set s) = None \<or>
           find_best (totalCosts s) None (open_set s) = Some goal \<or>
           (\<exists>best e. find_best (totalCosts s) None (open_set s) = Some best \<and>
              calculateLinksForNode A best = Inl e)"
  proof (cases "find_best (totalCosts s) None (open_set s)")
    case None
    then show ?thesis by simp
  next
    case (Some best)
    show ?thesis
    proof (cases "calculateLinksForNode A best")
      case (Inl e)
      with Some show ?thesis by blast
    next
      case (Inr links)
      with False Some have "goal = best" by blast
      with Some show ?thesis by simp
    qed
  qed
  then have "iteration_js A start goal (js_of_state s) = js_of_step (iteration A start goal s)"
    by (rule iteration_js_not_relaxing)
  then show ?thesis by simp
next
  case True
  then obtain best links where b: "find_best (totalCosts s) None (open_set s) = Some best"
    "goal \<noteq> best" "calculateLinksForNode A best = Inr links"
    by blast
  from pl out_link_set [OF b(3)] have 1: "\<forall>l \<in> set links. plain_key (to_l l)" by blast
  note 2 = plain_state_no_hasOwnProperty [OF bk ps]
  note 3 = best_cost_defined [OF bk b(1)]
  from relax_links_js_agrees [OF 1 2 3, of A start] show ?thesis
    by (cases "relax_links A start best s links")
      (simp_all add: iteration_js_relaxing [OF b] closing_update_js)
qed

lemma iteration_plain_state:
  assumes it: "iteration A start goal s = Next s'" and ps: "plain_state s"
    and pl: "\<forall>n l. out_link A n l \<longrightarrow> plain_key (to_l l)"
  shows "plain_state s'"
  using it
proof (cases rule: iteration_cases)
  case (continue best links t)
  from pl out_link_set [OF continue(3)] have "\<forall>l \<in> set links. to_l l \<in> Collect plain_key"
    by blast
  moreover from ps have "set (open_set s) \<subseteq> Collect plain_key" by (auto simp: plain_state_def)
  ultimately have "set (open_set t) \<subseteq> Collect plain_key"
    by (rule relax_links_open_within [OF continue(4)])
  moreover from find_best_member [OF continue(1)] ps have "plain_key best"
    by (simp add: plain_state_def)
  moreover from ps relax_links_closed_set [OF continue(4)]
  have "set (closed_set t) \<subseteq> Collect plain_key" by (auto simp: plain_state_def)
  ultimately show ?thesis using continue(5) by (auto simp: plain_state_def)
qed simp_all

lemma search_loop_js_Next:
  "iteration_js A start goal s = JsNext s' \<Longrightarrow>
     search_loop_js A start goal s = search_loop_js A start goal s'"
  by (subst search_loop_js.simps) simp

lemma search_loop_js_stop:
  "iteration_js A start goal s = r \<Longrightarrow> \<forall>s'. r \<noteq> JsNext s' \<Longrightarrow>
     search_loop_js A start goal s = Some r"
  by (subst search_loop_js.simps) (cases r; simp)

lemma search_loop_stop:
  "iteration A start goal s = r \<Longrightarrow> \<forall>s'. r \<noteq> Next s' \<Longrightarrow>
     search_loop A start goal s = Some r"
  by (subst search_loop.simps) (cases r; simp)

lemma search_loop_unfold_stop:
  assumes "search_loop A start goal s = Some r" and "\<forall>s'. iteration A start goal s \<noteq> Next s'"
  shows "r = iteration A start goal s"
  using assms by (subst (asm) search_loop.simps) (cases "iteration A start goal s"; simp)

lemma search_loop_js_unfold_stop:
  assumes "search_loop_js A start goal s = Some r" and "\<forall>s'. iteration_js A start goal s \<noteq> JsNext s'"
  shows "r = iteration_js A start goal s"
  using assms by (subst (asm) search_loop_js.simps) (cases "iteration_js A start goal s"; simp)

lemma js_of_step_Next: "js_of_step r = JsNext t \<longleftrightarrow> (\<exists>s'. r = Next s' \<and> t = js_of_state s')"
  by (cases r) auto

lemma search_loop_js_simulates:
  assumes "search_loop A start goal s = Some r"
  shows "(\<forall>n l. out_link A n l \<longrightarrow> to_l l \<noteq> ''__proto__'') \<Longrightarrow> bookkeeping s \<Longrightarrow>
         search_loop_js A start goal (js_of_state s) = Some (JsThrow JsTypeError) \<or>
         search_loop_js A start goal (js_of_state s) = Some (js_of_step r)"
  using assms
proof (induction rule: search_loop.raw_induct [rotated, consumes 1])
  case (1 loop A start goal s r)
  from iteration_js_simulates [OF 1(4,3), of start goal]
  consider (shadowed) "iteration_js A start goal (js_of_state s) = JsThrow JsTypeError"
    | (same) "iteration_js A start goal (js_of_state s) = js_of_step (iteration A start goal s)"
    by blast
  then show ?case
  proof cases
    case shadowed
    then have "search_loop_js A start goal (js_of_state s) = Some (JsThrow JsTypeError)"
      by (rule search_loop_js_stop) simp
    then show ?thesis by simp
  next
    case same
    show ?thesis
    proof (cases "\<exists>s'. iteration A start goal s = Next s'")
      case True
      then obtain s' where s': "iteration A start goal s = Next s'" by blast
      with 1(2) have "loop A start goal s' = Some r" by simp
      moreover from s' 1(4) have "bookkeeping s'" by (rule iteration_bookkeeping)
      ultimately have "search_loop_js A start goal (js_of_state s') = Some (JsThrow JsTypeError) \<or>
          search_loop_js A start goal (js_of_state s') = Some (js_of_step r)"
        using 1(1,3) by blast
      moreover from same s' have "search_loop_js A start goal (js_of_state s) =
          search_loop_js A start goal (js_of_state s')"
        by (simp add: search_loop_js_Next)
      ultimately show ?thesis by simp
    next
      case False
      with 1(2) have r: "r = iteration A start goal s"
        by (cases "iteration A start goal s") simp_all
      from False same have "\<forall>t. iteration_js A start goal (js_of_state s) \<noteq> JsNext t"
        by (simp add: js_of_step_Next)
      with same r have "search_loop_js A start goal (js_of_state s) = Some (js_of_step r)"
        by (simp add: search_loop_js_stop)
      then show ?thesis by simp
    qed
  qed
qed

lemma search_loop_js_agrees:
  assumes "search_loop A start goal s = Some r"
  shows "(\<forall>n l. out_link A n l \<longrightarrow> plain_key (to_l l)) \<Longrightarrow> bookkeeping s \<Longrightarrow> plain_state s \<Longrightarrow>
         search_loop_js A start goal (js_of_state s) = Some (js_of_step r)"
  using assms
proof (induction rule: search_loop.raw_induct [rotated, consumes 1])
  case (1 loop A start goal s r)
  note same = iteration_js_agrees [OF 1(4,5,3), of start goal]
  show ?case
  proof (cases "\<exists>s'. iteration A start goal s = Next s'")
    case True
    then obtain s' where s': "iteration A start goal s = Next s'" by blast
    with 1(2) have "loop A start goal s' = Some r" by simp
    moreover from s' 1(4) have "bookkeeping s'" by (rule iteration_bookkeeping)
    moreover from s' 1(5,3) have "plain_state s'" by (rule iteration_plain_state)
    ultimately have "search_loop_js A start goal (js_of_state s') = Some (js_of_step r)"
      using 1(1,3) by blast
    moreover from same s' have "search_loop_js A start goal (js_of_state s) =
        search_loop_js A start goal (js_of_state s')"
      by (simp add: search_loop_js_Next)
    ultimately show ?thesis by simp
  next
    case False
    with 1(2) have r: "r = iteration A start goal s"
      by (cases "iteration A start goal s") simp_all
    from False same have "\<forall>t. iteration_js A start goal (js_of_state s) \<noteq> JsNext t"
      by (simp add: js_of_step_Next)
    with same r show ?thesis
      by (simp add: search_loop_js_stop)
  qed
qed

lemma search_loop_js_reflects:
  assumes "search_loop_js A start goal js = Some r'"
  shows "js = js_of_state s \<Longrightarrow> (\<forall>n l. out_link A n l \<longrightarrow> to_l l \<noteq> ''__proto__'') \<Longrightarrow>
         bookkeeping s \<Longrightarrow>
         r' = JsThrow JsTypeError \<or> (\<exists>r. search_loop A start goal s = Some r \<and> r' = js_of_step r)"
  using assms
proof (induction arbitrary: s rule: search_loop_js.raw_induct [rotated, consumes 1])
  case (1 loop A start goal js r' s)
  from iteration_js_simulates [OF 1(5,4), of start goal] 1(3)
  consider (shadowed) "iteration_js A start goal js = JsThrow JsTypeError"
    | (same) "iteration_js A start goal js = js_of_step (iteration A start goal s)"
    by blast
  then show ?case
  proof cases
    case shadowed
    with 1(2) show ?thesis by simp
  next
    case same
    show ?thesis
    proof (cases "\<exists>s'. iteration A start goal s = Next s'")
      case True
      then obtain s' where s': "iteration A start goal s = Next s'" by blast
      with same 1(2) have "loop A start goal (js_of_state s') = Some r'" by simp
      moreover from s' 1(5) have "bookkeeping s'" by (rule iteration_bookkeeping)
      ultimately have "r' = JsThrow JsTypeError \<or>
          (\<exists>r. search_loop A start goal s' = Some r \<and> r' = js_of_step r)"
        using 1(1,4) by blast
      with search_loop_Next [OF s'] show ?thesis by simp
    next
      case False
      then have stop: "\<forall>s'. iteration A start goal s \<noteq> Next s'" by simp
      with same 1(2) have "r' = js_of_step (iteration A start goal s)"
        by (cases "iteration A start goal s") simp_all
      moreover from stop have "search_loop A start goal s = Some (iteration A start goal s)"
        by (simp add: search_loop_stop)
      ultimately show ?thesis by blast
    qed
  qed
qed

lemma visited_of_visited_js:
  assumes "settable_nodes A start"
  shows "visited_js A start goal js \<Longrightarrow> \<exists>s. js = js_of_state s \<and> visited A start goal s"
proof (induction rule: visited_js.induct)
  case visited_js_initial
  from assms have "start \<noteq> ''__proto__''" by (simp add: settable_nodes_def)
  then have "initial_js start = js_of_state (initial_state start)" by (rule initial_js_plain)
  with visited_initial [of A start goal] show ?case by blast
next
  case (visited_js_next js js')
  then obtain s where s: "js = js_of_state s" "visited A start goal s" by blast
  from assms have pl: "\<forall>n l. out_link A n l \<longrightarrow> to_l l \<noteq> ''__proto__''"
    by (simp add: settable_nodes_def)
  from iteration_js_simulates [OF visited_bookkeeping [OF s(2)] pl, of start goal] visited_js_next(2) s(1)
  have "js_of_step (iteration A start goal s) = JsNext js'" by auto
  then obtain s' where s': "iteration A start goal s = Next s'" "js' = js_of_state s'"
    by (auto simp: js_of_step_Next)
  from visited_next [OF s(2) s'(1)] s'(2) show ?case by blast
qed

lemma trace_back_js_Null: "trace_back_js cf p Null ls = Some (Inr ls)"
  by (subst trace_back_js.simps) simp

lemma trace_back_js_Undefined: "trace_back_js cf p Undefined ls = Some (Inl JsTypeError)"
  by (subst trace_back_js.simps) simp

lemma trace_back_js_ALink:
  "trace_back_js cf p (ALink l) ls = trace_back_js cf p (cameFrom_read cf p (from_l l)) (l # ls)"
  by (subst trace_back_js.simps) simp

lemma cameFrom_read_entry:
  "cf n = Some None \<Longrightarrow> cameFrom_read cf p n = Null"
  "cf n = Some (Some l) \<Longrightarrow> cameFrom_read cf p n = ALink l"
  by (simp_all add: cameFrom_read_def)

lemma chain_trace_back_js:
  "chain_to_start cf start n ls \<Longrightarrow>
     trace_back_js cf p (cameFrom_read cf p n) acc = Some (Inr (ls @ acc))"
proof (induction arbitrary: acc rule: chain_to_start.induct)
  case chain_null
  then show ?case by (simp add: cameFrom_read_entry trace_back_js_Null)
next
  case (chain_link n l ls)
  from chain_link.IH [of "l # acc"] chain_link.hyps(1) show ?case
    by (simp add: cameFrom_read_entry trace_back_js_ALink)
qed

lemma cost_read_entry: "m k = Some v \<Longrightarrow> cost_read m k = Some (Number v)"
  by (simp add: cost_read_def)

lemma js_of_failure_Unmodelled: "js_of_failure e = Unmodelled \<longleftrightarrow> e = UndefinedCost"
  by (cases e) simp_all

lemma js_of_failure_TypeError: "js_of_failure e = JsTypeError \<longleftrightarrow> e = TypeError"
  by (cases e) simp_all

lemma findPath_js_of_loop:
  fixes A :: "'e AStar"
  assumes loop: "search_loop A start goal (initial_state start) = Some r"
    and js: "search_loop_js A start goal (initial_js start) = Some (js_of_step r)"
    and lfq: "links_from_queried A" and nn: "no_negative_self_link A"
  shows "\<exists>x. findPath A start goal = Some x \<and>
           findPath_js A start goal = Some (map_sum js_of_failure js_of_path x)"
proof (cases r)
  case (NotFound n)
  with loop js show ?thesis by (simp add: findPath_def findPath_js_def js_of_path_def)
next
  case (Throw e)
  with loop js show ?thesis by (simp add: findPath_def findPath_js_def)
next
  case (Next s)
  with search_loop_initial_result [OF loop] show ?thesis by blast
next
  case (Break b s)
  with loop have l: "search_loop A start goal (initial_state start) = Some (Break b s)" by simp
  from break_state [OF l] have v: "visited A start goal s" and b: "b \<in> set (open_set s)"
    by auto
  from visited_bookkeeping [OF v] b have d: "b \<in> dom (cameFrom s)" "b \<in> dom (linkCosts s)"
    by (auto simp: bookkeeping_def)
  from visited_trace_back [OF v lfq nn d(1)] obtain ls where
    ls: "chain_to_start (cameFrom s) start b ls"
      "trace_back (cameFrom s) (cameFrom s b) [] = (Some (Inr ls) :: ('e failure + Link list) option)"
    by blast
  from chain_trace_back_js [OF ls(1), of ObjectProto "[]"]
  have tj: "trace_back_js (cameFrom s) ObjectProto (cameFrom_read (cameFrom s) ObjectProto b) [] =
      (Some (Inr ls) :: ('e js_failure + Link list) option)"
    by simp
  from d(2) obtain c where c: "linkCosts s b = Some c" by blast
  from l ls(2) c have 1: "findPath A start goal =
      Some (Inr \<lparr>found = True, iterations = iterations_st s, cost = Some c, path = Some ls\<rparr>)"
    by (simp add: findPath_def)
  from js Break tj c have 2: "findPath_js A start goal =
      Some (Inr \<lparr>found_js = True, iterations_js = iterations_st s, cost_js = Some (Number c),
                 path_js = Some ls\<rparr>)"
    by (simp add: findPath_js_def cost_read_entry)
  from 1 2 show ?thesis by (simp add: js_of_path_def)
qed

lemma findPath_loop_returned:
  assumes "findPath A start goal = Some x"
  shows "\<exists>r. search_loop A start goal (initial_state start) = Some r"
  using assms by (cases "search_loop A start goal (initial_state start)") (simp_all add: findPath_def)

lemma findPath_js_loop_returned:
  assumes "findPath_js A start goal = Some x"
  shows "\<exists>r. search_loop_js A start goal (initial_js start) = Some r \<and>
           (r = JsThrow JsTypeError \<longrightarrow> x = Inl JsTypeError)"
  using assms
  by (cases "search_loop_js A start goal (initial_js start)") (auto simp: findPath_js_def)

lemma findPath_js_shadowed:
  assumes "search_loop_js A start goal (initial_js start) = Some (JsThrow e)"
  shows "findPath_js A start goal = Some (Inl e)"
  using assms by (simp add: findPath_js_def)

lemma findPath_js_simulates:
  fixes A :: "'e AStar"
  assumes sn: "settable_nodes A start"
    and lfq: "links_from_queried A" and nn: "no_negative_self_link A"
    and loop: "search_loop A start goal (initial_state start) = Some r"
  shows "findPath_js A start goal = Some (Inl JsTypeError) \<or>
         (\<exists>x. findPath A start goal = Some x \<and>
            findPath_js A start goal = Some (map_sum js_of_failure js_of_path x))"
proof -
  from sn have s: "start \<noteq> ''__proto__''"
    and pl: "\<forall>n l. out_link A n l \<longrightarrow> to_l l \<noteq> ''__proto__''"
    by (simp_all add: settable_nodes_def)
  from search_loop_js_simulates [OF loop pl bookkeeping_initial] initial_js_plain [OF s]
  consider "search_loop_js A start goal (initial_js start) = Some (JsThrow JsTypeError)"
    | "search_loop_js A start goal (initial_js start) = Some (js_of_step r)"
    by auto
  then show ?thesis
  proof cases
    case 1
    then show ?thesis by (simp add: findPath_js_shadowed)
  next
    case 2
    from findPath_js_of_loop [OF loop 2 lfq nn] show ?thesis by blast
  qed
qed

lemma findPath_js_agrees:
  fixes A :: "'e AStar"
  assumes pn: "plain_nodes A start"
    and lfq: "links_from_queried A" and nn: "no_negative_self_link A"
    and loop: "search_loop A start goal (initial_state start) = Some r"
  shows "\<exists>x. findPath A start goal = Some x \<and>
           findPath_js A start goal = Some (map_sum js_of_failure js_of_path x)"
proof -
  from pn have s: "start \<noteq> ''__proto__''" and ps: "plain_state (initial_state start)"
    and pl: "\<forall>n l. out_link A n l \<longrightarrow> plain_key (to_l l)"
    by (simp_all add: plain_nodes_def plain_key_def plain_state_def initial_state_def)
  from search_loop_js_agrees [OF loop pl bookkeeping_initial ps] initial_js_plain [OF s]
  have "search_loop_js A start goal (initial_js start) = Some (js_of_step r)" by simp
  from findPath_js_of_loop [OF loop this lfq nn] show ?thesis .
qed

lemma findPath_js_reflects:
  fixes A :: "'e AStar"
  assumes sn: "settable_nodes A start"
    and lfq: "links_from_queried A" and nn: "no_negative_self_link A"
    and fp: "findPath_js A start goal = Some (Inr p)"
  shows "\<exists>q. findPath A start goal = Some (Inr q) \<and> p = js_of_path q"
proof -
  from sn have s: "start \<noteq> ''__proto__''"
    and pl: "\<forall>n l. out_link A n l \<longrightarrow> to_l l \<noteq> ''__proto__''"
    by (simp_all add: settable_nodes_def)
  from findPath_js_loop_returned [OF fp] obtain r' where
    r': "search_loop_js A start goal (initial_js start) = Some r'" "r' \<noteq> JsThrow JsTypeError"
    by auto
  from search_loop_js_reflects [OF r'(1) initial_js_plain [OF s] pl bookkeeping_initial] r'(2)
  obtain r where r: "search_loop A start goal (initial_state start) = Some r" by blast
  from findPath_js_simulates [OF sn lfq nn r] fp obtain x where
    x: "findPath A start goal = Some x" "map_sum js_of_failure js_of_path x = Inr p"
    by auto
  then show ?thesis by (cases x) auto
qed

lemma search_loop_js_terminates:
  fixes A :: "'e AStar"
  assumes fin: "finite N" and lw: "links_within A N" and sn: "settable_nodes A start"
  shows "\<exists>r. search_loop_js A start goal (initial_js start) = Some r \<and> r \<noteq> JsThrow Unmodelled"
proof -
  from sn have s: "start \<noteq> ''__proto__''"
    and pl: "\<forall>n l. out_link A n l \<longrightarrow> to_l l \<noteq> ''__proto__''"
    by (simp_all add: settable_nodes_def)
  from search_loop_terminates [OF fin lw] obtain r where
    r: "search_loop A start goal (initial_state start) = Some r" by blast
  from search_loop_initial_result [OF r] obtain t where
    t: "visited A start goal t" "iteration A start goal t = r" by blast
  have "js_of_step r \<noteq> JsThrow Unmodelled"
  proof (cases r)
    case (Throw e)
    with iteration_error [OF t(1)] t(2) show ?thesis by auto
  qed simp_all
  moreover from search_loop_js_simulates [OF r pl bookkeeping_initial] initial_js_plain [OF s]
  have "search_loop_js A start goal (initial_js start) = Some (JsThrow JsTypeError) \<or>
      search_loop_js A start goal (initial_js start) = Some (js_of_step r)"
    by simp
  ultimately show ?thesis by auto
qed

lemma findPath_js_returns:
  fixes A :: "'e AStar"
  assumes fin: "finite N" and lw: "links_within A N" and sn: "settable_nodes A start"
    and lfq: "links_from_queried A" and nn: "no_negative_self_link A"
  shows "\<exists>x. findPath_js A start goal = Some x \<and> x \<noteq> Inl Unmodelled"
proof -
  from search_loop_terminates [OF fin lw] obtain r where
    r: "search_loop A start goal (initial_state start) = Some r" by blast
  from findPath_js_simulates [OF sn lfq nn r]
  consider "findPath_js A start goal = Some (Inl JsTypeError)"
    | x where "findPath A start goal = Some x"
      "findPath_js A start goal = Some (map_sum js_of_failure js_of_path x)"
    by blast
  then show ?thesis
  proof cases
    case 1
    then show ?thesis by simp
  next
    case 2
    from findPath_no_UndefinedCost [of A start goal] 2(1) have "x \<noteq> Inl UndefinedCost" by auto
    then have "map_sum js_of_failure js_of_path x \<noteq> Inl Unmodelled"
      by (cases x) (simp_all add: js_of_failure_Unmodelled)
    with 2(2) show ?thesis by simp
  qed
qed

section \<open>Start equal to goal, on objects\<close>

lemmas eval_js_defs = iteration_js_def initial_js_def new_AStar_def graph_links_def relax_js_def
  store_js_def cameFrom_write_def number_write_def has_own_property_def
  set_add_def set_delete_def js_less_def mk_link_def Let_def

text \<open>
  For every node but \<open>__proto__\<close>, \<open>findPath(n, n)\<close> returns
  \<open>{found: true, cost: 0, iterations: 1, path: []}\<close>, whatever the collaborators.
\<close>

lemma findPath_js_same_node:
  assumes "n \<noteq> ''__proto__''"
  shows "findPath_js A n n =
     Some (Inr \<lparr>found_js = True, iterations_js = 1, cost_js = Some (Number 0), path_js = Some []\<rparr>)"
proof -
  have "iteration_js A n n (initial_js n) = JsBreak n (initial_js n)"
    using assms by (simp add: iteration_js_def initial_js_def cameFrom_write_def number_write_def)
  then have "search_loop_js A n n (initial_js n) = Some (JsBreak n (initial_js n))"
    by (rule search_loop_js_stop) simp
  moreover have "cameFrom_read (js_cameFrom (initial_js n)) (js_proto (initial_js n)) n = Null"
    using assms by (simp add: initial_js_def cameFrom_write_def cameFrom_read_def)
  moreover have "cost_read (js_linkCosts (initial_js n)) n = Some (Number 0)"
    using assms by (simp add: initial_js_def cameFrom_write_def number_write_def cost_read_def)
  moreover have "js_iterations (initial_js n) = 1"
    by (simp add: initial_js_def cameFrom_write_def split: prod.splits)
  ultimately show ?thesis
    by (simp add: findPath_js_def trace_back_js_Null)
qed

text \<open>
  C5 says that \<open>findPath(n, n)\<close> returns
  \<open>{found: true, cost: 0, iterations: 1, path: []}\<close> for every node \<open>n\<close>. For the
  node \<open>__proto__\<close> the code throws a \<open>TypeError\<close> instead, whatever the
  collaborators: \<open>cameFrom[start] = null\<close> makes \<open>null\<close> the prototype of
  \<open>cameFrom\<close> and creates no entry, the first pass selects the start and breaks out,
  \<open>cameFrom[best]\<close> reads \<open>undefined\<close>, and the walk back reads the field \<open>from\<close>
  of it.
\<close>

theorem findPath_proto_start_is_goal_throws:
  "findPath_js A ''__proto__'' ''__proto__'' = Some (Inl JsTypeError)"
proof -
  have "iteration_js A ''__proto__'' ''__proto__'' (initial_js ''__proto__'') =
      JsBreak ''__proto__'' (initial_js ''__proto__'')"
    by (simp add: iteration_js_def initial_js_def cameFrom_write_def number_write_def)
  then have "search_loop_js A ''__proto__'' ''__proto__'' (initial_js ''__proto__'') =
      Some (JsBreak ''__proto__'' (initial_js ''__proto__''))"
    by (rule search_loop_js_stop) simp
  moreover have "cameFrom_read (js_cameFrom (initial_js ''__proto__''))
      (js_proto (initial_js ''__proto__'')) ''__proto__'' = Undefined"
    by (simp add: initial_js_def cameFrom_write_def cameFrom_read_def)
  ultimately show ?thesis
    by (simp add: findPath_js_def trace_back_js_Undefined)
qed

section \<open>The node chosen for expansion, on objects\<close>

lemma iteration_closes_best:
  assumes "iteration A start goal s = Next s'"
  shows "\<exists>best. find_best (totalCosts s) None (open_set s) = Some best \<and>
           closed_set s' = set_add (closed_set s) best \<and> best \<notin> set (open_set s')"
  using assms
proof (cases rule: iteration_cases)
  case (continue best links t)
  from relax_links_closed_set [OF continue(4)] continue(1,5) show ?thesis by simp
qed simp_all

lemma iteration_breaks_at_best:
  assumes "iteration A start goal s = Break b s'"
  shows "find_best (totalCosts s) None (open_set s) = Some b \<and> b = goal \<and> s' = s"
  using assms by (cases rule: iteration_cases) simp_all

lemma iteration_not_found_empty:
  assumes "iteration A start goal s = NotFound n"
  shows "open_set s = []"
  using assms by (cases rule: iteration_cases) simp_all

text \<open>
  When no node is named \<open>__proto__\<close>, every pass through the loop with a non-empty
  open set works on the first open node of minimal \<open>totalCosts\<close>: the pass breaks out
  with that node, or throws, or moves that node, and no other, from \<open>open\<close> into
  \<open>closed\<close>.
\<close>

lemma expanded_node_is_first_minimal:
  fixes A :: "'e AStar"
  assumes v: "visited_js A start goal s" and sn: "settable_nodes A start" and ne: "js_open s \<noteq> []"
  shows "\<exists>i < length (js_open s).
           (\<forall>j < length (js_open s). \<exists>ci cj.
              js_totalCosts s (js_open s ! i) = Some ci \<and> js_totalCosts s (js_open s ! j) = Some cj \<and>
              ci \<le> cj \<and> (j < i \<longrightarrow> ci < cj)) \<and>
           (case iteration_js A start goal s of
              JsNotFound n \<Rightarrow> False
            | JsBreak b s' \<Rightarrow> b = js_open s ! i \<and> b = goal \<and> s' = s
            | JsThrow e \<Rightarrow> True
            | JsNext s' \<Rightarrow>
                js_closed s' = set_add (js_closed s) (js_open s ! i) \<and>
                js_open s ! i \<notin> set (js_open s'))"
proof -
  from visited_of_visited_js [OF sn v] obtain t where
    t: "s = js_of_state t" "visited A start goal t" by blast
  from ne t(1) have ne': "open_set t \<noteq> []" by simp
  from find_best_first_minimal [OF t(2) ne'] obtain i where
    i: "i < length (open_set t)" "find_best (totalCosts t) None (open_set t) = Some (open_set t ! i)"
      "\<forall>j < length (open_set t). \<exists>ci cj.
          totalCosts t (open_set t ! i) = Some ci \<and> totalCosts t (open_set t ! j) = Some cj \<and>
          ci \<le> cj \<and> (j < i \<longrightarrow> ci < cj)"
    by blast
  from sn have pl: "\<forall>n l. out_link A n l \<longrightarrow> to_l l \<noteq> ''__proto__''"
    by (simp add: settable_nodes_def)
  have "case iteration_js A start goal s of
              JsNotFound n \<Rightarrow> False
            | JsBreak b s' \<Rightarrow> b = js_open s ! i \<and> b = goal \<and> s' = s
            | JsThrow e \<Rightarrow> True
            | JsNext s' \<Rightarrow>
                js_closed s' = set_add (js_closed s) (js_open s ! i) \<and>
                js_open s ! i \<notin> set (js_open s')"
  proof (cases "iteration_js A start goal s = JsThrow JsTypeError")
    case True
    then show ?thesis by simp
  next
    case False
    with iteration_js_simulates [OF visited_bookkeeping [OF t(2)] pl, of start goal] t(1)
    have same: "iteration_js A start goal s = js_of_step (iteration A start goal t)" by simp
    show ?thesis
    proof (cases "iteration A start goal t")
      case (NotFound n)
      with iteration_not_found_empty [OF NotFound] ne' show ?thesis by simp
    next
      case (Break b t')
      with iteration_breaks_at_best [OF Break] i(2) same t(1) show ?thesis by simp
    next
      case (Throw e)
      with same show ?thesis by simp
    next
      case (Next t')
      with iteration_closes_best [OF Next] i(2) same t(1) show ?thesis by simp
    qed
  qed
  with i(1,3) t(1) show ?thesis by auto
qed

lemma proto_first_step1:
  "iteration_js (new_AStar (graph_links proto_first_graph) None) ''a'' ''g'' (initial_js ''a'') =
     JsNext proto_first_state1"
  by (simp add: eval_js_defs proto_first_graph_def proto_first_state1_def)

lemma proto_first_step2:
  "iteration_js (new_AStar (graph_links proto_first_graph) None) ''a'' ''g'' proto_first_state1 =
     JsNext proto_first_state2"
  by (simp add: eval_js_defs proto_first_graph_def proto_first_state1_def proto_first_state2_def)

lemma proto_first_step3:
  "iteration_js (new_AStar (graph_links proto_first_graph) None) ''a'' ''g'' proto_first_state2 =
     JsNext proto_first_state3"
  by (simp add: eval_js_defs proto_first_graph_def proto_first_state2_def proto_first_state3_def)

text \<open>
  C3 says that the node chosen for expansion is an open node of minimal \<open>totalCosts\<close>,
  the first of them in insertion order. With the links \<open>a \<rightarrow> __proto__\<close> (cost 7),
  \<open>a \<rightarrow> b\<close> (cost 5) and \<open>a \<rightarrow> c\<close> (cost 1), the search from \<open>a\<close> has the open
  nodes \<open>__proto__\<close>, \<open>b\<close>, \<open>c\<close> after its first pass. The assignment
  \<open>totalCosts['__proto__'] = 7\<close> has created no entry, the read gives an object, and
  every comparison with it is false: the second pass chooses \<open>__proto__\<close> and closes
  it, although \<open>b\<close> and \<open>c\<close> are open with the values 5 and 1. The third pass
  chooses \<open>c\<close>, which is not the first open node.
\<close>

theorem proto_chosen_before_cheaper_node:
  "iteration_js (new_AStar (graph_links proto_first_graph) None) ''a'' ''g'' (initial_js ''a'') =
     JsNext proto_first_state1 \<and>
   js_open proto_first_state1 = [''__proto__'', ''b'', ''c''] \<and>
   js_totalCosts proto_first_state1 ''__proto__'' = None \<and>
   js_totalCosts proto_first_state1 ''b'' = Some 5 \<and>
   js_totalCosts proto_first_state1 ''c'' = Some 1 \<and>
   find_best (js_totalCosts proto_first_state1) None (js_open proto_first_state1) =
     Some ''__proto__'' \<and>
   iteration_js (new_AStar (graph_links proto_first_graph) None) ''a'' ''g'' proto_first_state1 =
     JsNext proto_first_state2 \<and>
   js_closed proto_first_state2 = [''a'', ''__proto__''] \<and>
   js_open proto_first_state2 = [''b'', ''c''] \<and>
   find_best (js_totalCosts proto_first_state2) None (js_open proto_first_state2) = Some ''c'' \<and>
   iteration_js (new_AStar (graph_links proto_first_graph) None) ''a'' ''g'' proto_first_state2 =
     JsNext proto_first_state3 \<and>
   js_closed proto_first_state3 = [''a'', ''__proto__'', ''c'']"
proof -
  have "js_open proto_first_state1 = [''__proto__'', ''b'', ''c'']"
    "js_totalCosts proto_first_state1 ''__proto__'' = None"
    "js_totalCosts proto_first_state1 ''b'' = Some 5"
    "js_totalCosts proto_first_state1 ''c'' = Some 1"
    "find_best (js_totalCosts proto_first_state1) None (js_open proto_first_state1) =
       Some ''__proto__''"
    "js_closed proto_first_state2 = [''a'', ''__proto__'']"
    "js_open proto_first_state2 = [''b'', ''c'']"
    "find_best (js_totalCosts proto_first_state2) None (js_open proto_first_state2) = Some ''c''"
    "js_closed proto_first_state3 = [''a'', ''__proto__'', ''c'']"
    by (simp_all add: proto_first_state1_def proto_first_state2_def proto_first_state3_def
        js_less_def)
  then show ?thesis
    by (intro conjI proto_first_step1 proto_first_step2 proto_first_step3)
qed

section \<open>Least cost with the default heuristic, on objects\<close>

lemma integer_costs_nonnegative:
  assumes "links_among A g" and "integer_costs g"
  shows "nonnegative_costs A"
  unfolding nonnegative_costs_def
proof (intro allI impI)
  fix n l
  assume "out_link A n l"
  with assms(1) have "l \<in> set g" by (auto simp: links_among_def)
  with assms(2) have "cost_l l \<in> \<nat>" by (simp add: integer_costs_def)
  then show "0 \<le> cost_l l" by (auto elim: Nats_cases)
qed

lemma nonnegative_no_negative_self_link: "nonnegative_costs A \<Longrightarrow> no_negative_self_link A"
  by (simp add: nonnegative_costs_def no_negative_self_link_def)

lemma links_among_within:
  assumes "links_among A g"
  shows "links_within A (set (map from_l g) \<union> set (map to_l g))"
  using assms by (auto simp: links_among_def links_within_def)

lemma links_among_graph_links: "links_among (new_AStar (graph_links g) h) g"
  by (simp add: links_among_def out_link_graph_links)

lemma settable_nodes_graph_links:
  assumes "start \<noteq> ''__proto__''" and "\<forall>l \<in> set g. to_l l \<noteq> ''__proto__''"
  shows "settable_nodes (new_AStar (graph_links g) h) start"
  using assms by (simp add: settable_nodes_def out_link_graph_links)

lemma plain_nodes_graph_links:
  assumes "plain_key start" and "\<forall>l \<in> set g. plain_key (to_l l)"
  shows "plain_nodes (new_AStar (graph_links g) h) start"
  using assms by (simp add: plain_nodes_def out_link_graph_links)

lemma plain_nodes_new_AStar:
  "plain_nodes (new_AStar links (Some h)) start = plain_nodes (new_AStar links None) start"
  by (simp add: plain_nodes_def out_link_new_AStar)

lemma links_among_new_AStar:
  "links_among (new_AStar links (Some h)) g = links_among (new_AStar links None) g"
  by (simp add: links_among_def out_link_new_AStar)

text \<open>
  C1, as amended: when no node is named \<open>__proto__\<close>, the expander returns for every
  node only links whose \<open>from\<close> field is that node, these links belong to a finite
  list, and their costs are natural numbers with a total of at most \<open>2^53\<close>, then
  for the default heuristic a result with \<open>found = true\<close> carries a path from start
  to goal whose costs sum up to the returned cost, and no path from start to goal
  costs less.
\<close>

theorem least_cost_with_default_heuristic:
  fixes links :: "Node \<Rightarrow> 'e + Link list"
  assumes "settable_nodes (new_AStar links None) start"
    and "links_from_queried (new_AStar links None)"
    and "links_among (new_AStar links None) g" and "integer_costs g"
    and "findPath_js (new_AStar links None) start goal = Some (Inr p)" and "found_js p"
  shows "\<exists>ls c. path_js p = Some ls \<and> cost_js p = Some (Number c) \<and> path_cost ls = c \<and>
           is_path (new_AStar links None) start ls goal \<and>
           (\<forall>ls'. is_path (new_AStar links None) start ls' goal \<longrightarrow> c \<le> path_cost ls')"
proof -
  let ?A = "new_AStar links None"
  from integer_costs_nonnegative [OF assms(3,4)] have nonneg: "nonnegative_costs ?A" .
  then have nn: "no_negative_self_link ?A" by (rule nonnegative_no_negative_self_link)
  from findPath_js_reflects [OF assms(1,2) nn assms(5)] obtain q where
    q: "findPath ?A start goal = Some (Inr q)" "p = js_of_path q"
    by blast
  from q(2) assms(6) have f: "found q" by (simp add: js_of_path_def)
  from found_cost_optimal [OF assms(2) zero_heuristic_consistent [OF nonneg] q(1) f]
  obtain ls c where "path q = Some ls" "cost q = Some c" "path_cost ls = c"
    "is_path ?A start ls goal" "\<forall>ls'. is_path ?A start ls' goal \<longrightarrow> c \<le> path_cost ls'"
    by blast
  with q(2) show ?thesis by (simp add: js_of_path_def)
qed

lemma diamond_result_js:
  "findPath_js (new_AStar (graph_links diamond_graph) None) ''a'' ''d'' =
     Some (Inr \<lparr>found_js = True, iterations_js = 4, cost_js = Some (Number 3),
                path_js = Some [mk_link ''a'' ''c'' 1, mk_link ''c'' ''d'' 2]\<rparr>)"
  by code_simp

theorem least_cost_with_default_heuristic_witness:
  "settable_nodes (new_AStar (graph_links diamond_graph) None) ''a'' \<and>
   links_from_queried (new_AStar (graph_links diamond_graph) None) \<and>
   links_among (new_AStar (graph_links diamond_graph) None) diamond_graph \<and>
   integer_costs diamond_graph \<and>
   findPath_js (new_AStar (graph_links diamond_graph) None) ''a'' ''d'' =
     Some (Inr \<lparr>found_js = True, iterations_js = 4, cost_js = Some (Number 3),
                path_js = Some [mk_link ''a'' ''c'' 1, mk_link ''c'' ''d'' 2]\<rparr>) \<and>
   (\<exists>ls c.
      path_js \<lparr>found_js = True, iterations_js = 4, cost_js = Some (Number 3),
               path_js = Some [mk_link ''a'' ''c'' 1, mk_link ''c'' ''d'' 2]\<rparr> = Some ls \<and>
      cost_js \<lparr>found_js = True, iterations_js = 4, cost_js = Some (Number 3),
               path_js = Some [mk_link ''a'' ''c'' 1, mk_link ''c'' ''d'' 2]\<rparr> = Some (Number c) \<and>
      path_cost ls = c \<and>
      is_path (new_AStar (graph_links diamond_graph) None) ''a'' ls ''d'' \<and>
      (\<forall>ls'. is_path (new_AStar (graph_links diamond_graph) None) ''a'' ls' ''d'' \<longrightarrow>
         c \<le> path_cost ls'))"
proof -
  let ?A = "new_AStar (graph_links diamond_graph) None :: unit AStar"
  let ?p = "\<lparr>found_js = True, iterations_js = 4, cost_js = Some (Number 3),
             path_js = Some [mk_link ''a'' ''c'' 1, mk_link ''c'' ''d'' 2]\<rparr>"
  have 1: "settable_nodes ?A ''a''"
    by (rule settable_nodes_graph_links) (simp_all add: diamond_graph_def mk_link_def)
  have 2: "links_from_queried ?A" by (rule links_from_queried_graph_links)
  have 3: "links_among ?A diamond_graph" by (rule links_among_graph_links)
  have 4: "integer_costs diamond_graph"
    by (simp add: integer_costs_def diamond_graph_def mk_link_def)
  have 5: "found_js ?p" by simp
  note 6 = least_cost_with_default_heuristic [OF 1 2 3 4 diamond_result_js 5]
  show ?thesis
    by (intro conjI 1 2 3 4 6 diamond_result_js)
qed

text \<open>
  C1 as stated fails in two ways. When the expander returns for \<open>a\<close> a link that
  leaves \<open>c\<close> (cost 1, to \<open>b\<close>) and a link to \<open>c\<close> (cost 5), \<open>findPath\<close> from \<open>a\<close>
  to \<open>b\<close> returns the cost 1 with a path whose costs sum up to 6. When the goal is
  named \<open>__proto__\<close>, the returned cost is not a number but the object that the read of
  \<open>linkCosts['__proto__']\<close> inherits, and the path costs 1.
\<close>

lemma swapped_result:
  "findPath_js (new_AStar swapped_links None) ''a'' ''b'' =
     Some (Inr \<lparr>found_js = True, iterations_js = 2, cost_js = Some (Number 1),
                path_js = Some [mk_link ''a'' ''c'' 5, mk_link ''c'' ''b'' 1]\<rparr>)"
  by code_simp

lemma proto_goal_result:
  "findPath_js (new_AStar (graph_links proto_goal_graph) None) ''a'' ''__proto__'' =
     Some (Inr \<lparr>found_js = True, iterations_js = 2, cost_js = Some (InheritedValue ''__proto__''),
                path_js = Some [mk_link ''a'' ''__proto__'' 1]\<rparr>)"
  by code_simp

theorem least_cost_with_default_heuristic_counterexample:
  "nonnegative_costs (new_AStar swapped_links None) \<and>
   findPath_js (new_AStar swapped_links None) ''a'' ''b'' =
     Some (Inr \<lparr>found_js = True, iterations_js = 2, cost_js = Some (Number 1),
                path_js = Some [mk_link ''a'' ''c'' 5, mk_link ''c'' ''b'' 1]\<rparr>) \<and>
   path_cost [mk_link ''a'' ''c'' 5, mk_link ''c'' ''b'' 1] = 6 \<and>
   nonnegative_costs (new_AStar (graph_links proto_goal_graph) None) \<and>
   findPath_js (new_AStar (graph_links proto_goal_graph) None) ''a'' ''__proto__'' =
     Some (Inr \<lparr>found_js = True, iterations_js = 2, cost_js = Some (InheritedValue ''__proto__''),
                path_js = Some [mk_link ''a'' ''__proto__'' 1]\<rparr>) \<and>
   path_cost [mk_link ''a'' ''__proto__'' 1] = 1"
proof -
  have 1: "nonnegative_costs (new_AStar swapped_links None)"
    by (auto simp: nonnegative_costs_def out_link_def new_AStar_def swapped_links_def mk_link_def
        split: if_splits)
  have 2: "path_cost [mk_link ''a'' ''c'' 5, mk_link ''c'' ''b'' 1] = 6"
    by (simp add: mk_link_def)
  have 3: "nonnegative_costs (new_AStar (graph_links proto_goal_graph) None)"
    by (rule nonnegative_costs_graph_links) (simp add: proto_goal_graph_def mk_link_def)
  have 4: "path_cost [mk_link ''a'' ''__proto__'' 1] = 1"
    by (simp add: mk_link_def)
  show ?thesis
    by (intro conjI 1 2 3 4 swapped_result proto_goal_result)
qed

section \<open>Searching with a heuristic, on objects\<close>

text \<open>
  C7, as amended: when no node is named \<open>__proto__\<close> or \<open>hasOwnProperty\<close>, the
  expander never fails and returns for every node only links whose \<open>from\<close> field is
  that node, these links belong to a finite list, their costs are natural numbers
  with a total of at most \<open>2^53\<close>, and the goal is reachable from the start, then
  for every heuristic that never fails, has natural numbers as values (each at most
  \<open>2^53\<close> minus the total of the costs), never overestimates the cost that remains to
  the goal and is consistent along the links, \<open>findPath\<close> finds the goal and returns
  the same cost as with the default zero heuristic. Nothing is said about the
  iterations counts.
\<close>

theorem admissible_consistent_heuristic_same_cost:
  fixes links :: "Node \<Rightarrow> 'e + Link list"
  assumes "plain_nodes (new_AStar links None) start"
    and "expander_total (new_AStar links None)"
    and "links_from_queried (new_AStar links None)"
    and "links_among (new_AStar links None) g" and "integer_costs g"
    and "integer_heuristic (new_AStar links (Some h)) start g"
    and "never_overestimates (new_AStar links (Some h)) start goal"
    and "consistent_heuristic (new_AStar links (Some h)) start"
    and "is_path (new_AStar links None) start ls0 goal"
  shows "\<exists>p q c. findPath_js (new_AStar links (Some h)) start goal = Some (Inr p) \<and>
           findPath_js (new_AStar links None) start goal = Some (Inr q) \<and>
           found_js p \<and> found_js q \<and> cost_js p = Some (Number c) \<and> cost_js q = Some (Number c)"
proof -
  let ?A = "new_AStar links (Some h)" and ?B = "new_AStar links None"
  let ?N = "set (map from_l g) \<union> set (map to_l g)"
  have fin: "finite ?N" by simp
  from links_among_within [OF assms(4)] have lw: "links_within ?B ?N" .
  from integer_costs_nonnegative [OF assms(4,5)] have nonneg: "nonnegative_costs ?B" .
  then have nnB: "no_negative_self_link ?B" by (rule nonnegative_no_negative_self_link)
  then have nnA: "no_negative_self_link ?A"
    by (simp add: no_negative_self_link_def out_link_new_AStar)
  from assms(1) have pA: "plain_nodes ?A start" by (simp add: plain_nodes_new_AStar)
  from assms(3) have lfqA: "links_from_queried ?A" by (simp add: links_from_queried_new_AStar)
  from same_cost_on_maps [OF fin lw assms(2,3) nonneg assms(8,9)] obtain p q c where
    pq: "findPath ?A start goal = Some (Inr p)" "findPath ?B start goal = Some (Inr q)"
      "found p" "found q" "cost p = Some c" "cost q = Some c"
    by blast
  from findPath_loop_returned [OF pq(1)] obtain r where
    "search_loop ?A start goal (initial_state start) = Some r" by blast
  from findPath_js_agrees [OF pA lfqA nnA this] pq(1)
  have 1: "findPath_js ?A start goal = Some (Inr (js_of_path p))" by simp
  from findPath_loop_returned [OF pq(2)] obtain r' where
    "search_loop ?B start goal (initial_state start) = Some r'" by blast
  from findPath_js_agrees [OF assms(1,3) nnB this] pq(2)
  have 2: "findPath_js ?B start goal = Some (Inr (js_of_path q))" by simp
  from pq(3-6) have "found_js (js_of_path p)" "found_js (js_of_path q)"
    "cost_js (js_of_path p) = Some (Number c)" "cost_js (js_of_path q) = Some (Number c)"
    by (simp_all add: js_of_path_def)
  with 1 2 show ?thesis by blast
qed

lemma tie_with_heuristic_js:
  "findPath_js (new_AStar (graph_links tie_graph) (Some tie_heuristic)) ''s'' ''g'' =
     Some (Inr \<lparr>found_js = True, iterations_js = 5, cost_js = Some (Number 2),
                path_js = Some [mk_link ''s'' ''x'' 1, mk_link ''x'' ''g'' 1]\<rparr>)"
  by code_simp

lemma tie_without_heuristic_js:
  "findPath_js (new_AStar (graph_links tie_graph) None) ''s'' ''g'' =
     Some (Inr \<lparr>found_js = True, iterations_js = 4, cost_js = Some (Number 2),
                path_js = Some [mk_link ''s'' ''x'' 1, mk_link ''x'' ''g'' 1]\<rparr>)"
  by code_simp

lemma detour_with_heuristic_js:
  "findPath_js (new_AStar (graph_links detour_graph) (Some detour_heuristic)) ''s'' ''g'' =
     Some (Inr \<lparr>found_js = True, iterations_js = 4, cost_js = Some (Number 15),
                path_js = Some [mk_link ''s'' ''b'' 5, mk_link ''b'' ''g'' 10]\<rparr>)"
  by code_simp

lemma detour_without_heuristic_js:
  "findPath_js (new_AStar (graph_links detour_graph) None) ''s'' ''g'' =
     Some (Inr \<lparr>found_js = True, iterations_js = 4, cost_js = Some (Number 14),
                path_js = Some [mk_link ''s'' ''a'' 3, mk_link ''a'' ''b'' 1, mk_link ''b'' ''g'' 10]\<rparr>)"
  by code_simp

lemma shadow_result:
  "findPath_js (new_AStar (graph_links shadow_graph) None) ''s'' ''g'' = Some (Inl JsTypeError)"
  by code_simp

lemma tie_plain: "plain_nodes (new_AStar (graph_links tie_graph) h) ''s''"
  by (rule plain_nodes_graph_links) (simp_all add: plain_key_def tie_graph_def mk_link_def)

lemma tie_integer_costs: "integer_costs tie_graph"
  by (simp add: integer_costs_def tie_graph_def mk_link_def)

lemma tie_integer_heuristic:
  "integer_heuristic (new_AStar (graph_links tie_graph) (Some tie_heuristic)) ''s'' tie_graph"
  by (simp add: integer_heuristic_def new_AStar_def tie_heuristic_def tie_graph_def mk_link_def)

lemma tie_never_overestimates:
  "never_overestimates (new_AStar (graph_links tie_graph) (Some tie_heuristic)) ''s'' ''g''"
  using tie_admissible by (simp add: admissible_heuristic_def never_overestimates_def)

lemma detour_integer_costs: "integer_costs detour_graph"
  by (simp add: integer_costs_def detour_graph_def mk_link_def)

lemma detour_integer_heuristic:
  "integer_heuristic (new_AStar (graph_links detour_graph) (Some detour_heuristic)) ''s'' detour_graph"
  by (simp add: integer_heuristic_def new_AStar_def detour_heuristic_def detour_graph_def mk_link_def)

lemma detour_never_overestimates:
  "never_overestimates (new_AStar (graph_links detour_graph) (Some detour_heuristic)) ''s'' ''g''"
  using detour_admissible by (simp add: admissible_heuristic_def never_overestimates_def)

lemma detour_plain: "plain_nodes (new_AStar (graph_links detour_graph) h) ''s''"
  by (rule plain_nodes_graph_links) (simp_all add: plain_key_def detour_graph_def mk_link_def)

theorem admissible_consistent_heuristic_same_cost_witness:
  "plain_nodes (new_AStar (graph_links tie_graph) None) ''s'' \<and>
   expander_total (new_AStar (graph_links tie_graph) None) \<and>
   links_from_queried (new_AStar (graph_links tie_graph) None) \<and>
   links_among (new_AStar (graph_links tie_graph) None) tie_graph \<and>
   integer_costs tie_graph \<and>
   integer_heuristic (new_AStar (graph_links tie_graph) (Some tie_heuristic)) ''s'' tie_graph \<and>
   never_overestimates (new_AStar (graph_links tie_graph) (Some tie_heuristic)) ''s'' ''g'' \<and>
   consistent_heuristic (new_AStar (graph_links tie_graph) (Some tie_heuristic)) ''s'' \<and>
   is_path (new_AStar (graph_links tie_graph) None) ''s''
     [mk_link ''s'' ''x'' 1, mk_link ''x'' ''g'' 1] ''g'' \<and>
   (\<exists>p q c.
      findPath_js (new_AStar (graph_links tie_graph) (Some tie_heuristic)) ''s'' ''g'' =
        Some (Inr p) \<and>
      findPath_js (new_AStar (graph_links tie_graph) None) ''s'' ''g'' = Some (Inr q) \<and>
      found_js p \<and> found_js q \<and> cost_js p = Some (Number c) \<and> cost_js q = Some (Number c))"
proof -
  let ?B = "new_AStar (graph_links tie_graph) None :: unit AStar"
  have 2: "expander_total ?B" by (rule expander_total_graph_links)
  have 3: "links_from_queried ?B" by (rule links_from_queried_graph_links)
  have 4: "links_among ?B tie_graph" by (rule links_among_graph_links)
  have 5: "is_path ?B ''s'' [mk_link ''s'' ''x'' 1, mk_link ''x'' ''g'' 1] ''g''"
    by (simp add: out_link_graph_links tie_graph_def mk_link_def)
  note 6 = admissible_consistent_heuristic_same_cost [OF tie_plain 2 3 4 tie_integer_costs
      tie_integer_heuristic tie_never_overestimates tie_consistent 5]
  show ?thesis
    by (intro conjI tie_plain 2 3 4 5 6 tie_integer_costs tie_integer_heuristic
        tie_never_overestimates tie_consistent)
qed

text \<open>
  C7 as stated fails in three ways. With an admissible heuristic that is not
  consistent, \<open>findPath\<close> closes \<open>b\<close> before the cheaper route through \<open>a\<close> is found
  and returns the cost 15, where the zero heuristic returns 14. With a heuristic that
  is both admissible and consistent the cost is the same, but a tie is broken the
  other way: 5 iterations, where the zero heuristic takes 4. And when the route to
  the goal leads through a node named \<open>hasOwnProperty\<close>, \<open>findPath\<close> throws a
  \<open>TypeError\<close> and returns no cost at all.
\<close>

theorem admissible_consistent_heuristic_same_cost_counterexample:
  "integer_costs detour_graph \<and>
   integer_heuristic (new_AStar (graph_links detour_graph) (Some detour_heuristic)) ''s'' detour_graph \<and>
   admissible_heuristic (new_AStar (graph_links detour_graph) (Some detour_heuristic)) ''s'' ''g'' \<and>
   findPath_js (new_AStar (graph_links detour_graph) (Some detour_heuristic)) ''s'' ''g'' =
     Some (Inr \<lparr>found_js = True, iterations_js = 4, cost_js = Some (Number 15),
                path_js = Some [mk_link ''s'' ''b'' 5, mk_link ''b'' ''g'' 10]\<rparr>) \<and>
   findPath_js (new_AStar (graph_links detour_graph) None) ''s'' ''g'' =
     Some (Inr \<lparr>found_js = True, iterations_js = 4, cost_js = Some (Number 14),
                path_js = Some [mk_link ''s'' ''a'' 3, mk_link ''a'' ''b'' 1, mk_link ''b'' ''g'' 10]\<rparr>) \<and>
   integer_costs tie_graph \<and>
   integer_heuristic (new_AStar (graph_links tie_graph) (Some tie_heuristic)) ''s'' tie_graph \<and>
   admissible_heuristic (new_AStar (graph_links tie_graph) (Some tie_heuristic)) ''s'' ''g'' \<and>
   consistent_heuristic (new_AStar (graph_links tie_graph) (Some tie_heuristic)) ''s'' \<and>
   findPath_js (new_AStar (graph_links tie_graph) (Some tie_heuristic)) ''s'' ''g'' =
     Some (Inr \<lparr>found_js = True, iterations_js = 5, cost_js = Some (Number 2),
                path_js = Some [mk_link ''s'' ''x'' 1, mk_link ''x'' ''g'' 1]\<rparr>) \<and>
   findPath_js (new_AStar (graph_links tie_graph) None) ''s'' ''g'' =
     Some (Inr \<lparr>found_js = True, iterations_js = 4, cost_js = Some (Number 2),
                path_js = Some [mk_link ''s'' ''x'' 1, mk_link ''x'' ''g'' 1]\<rparr>) \<and>
   integer_costs shadow_graph \<and>
   is_path (new_AStar (graph_links shadow_graph) None) ''s''
     [mk_link ''s'' ''hasOwnProperty'' 1, mk_link ''hasOwnProperty'' ''g'' 1] ''g'' \<and>
   findPath_js (new_AStar (graph_links shadow_graph) None) ''s'' ''g'' = Some (Inl JsTypeError)"
proof -
  have 1: "integer_costs shadow_graph"
    by (simp add: integer_costs_def shadow_graph_def mk_link_def)
  have 2: "is_path (new_AStar (graph_links shadow_graph) None) ''s''
     [mk_link ''s'' ''hasOwnProperty'' 1, mk_link ''hasOwnProperty'' ''g'' 1] ''g''"
    by (simp add: out_link_graph_links shadow_graph_def mk_link_def)
  show ?thesis
    by (intro conjI detour_integer_costs detour_integer_heuristic detour_admissible
        detour_with_heuristic_js detour_without_heuristic_js tie_integer_costs
        tie_integer_heuristic tie_admissible tie_consistent tie_with_heuristic_js
        tie_without_heuristic_js 1 2 shadow_result)
qed

section \<open>Termination, on objects\<close>

lemma trace_back_js_cycle_aux:
  "trace_back_js cf p previousLink acc = Some r \<Longrightarrow> cameFrom_read cf p (from_l l) = ALink l \<Longrightarrow>
     previousLink \<noteq> ALink l"
proof (induction rule: trace_back_js.raw_induct [rotated, consumes 1])
  case (1 trace cf p previousLink acc r)
  show ?case
  proof
    assume eq: "previousLink = ALink l"
    with 1(2) have "trace cf p (cameFrom_read cf p (from_l l)) (l # acc) = Some r" by simp
    from 1(1) [OF this 1(3)] 1(3) show False by simp
  qed
qed

lemma trace_back_js_cycle:
  assumes "cameFrom_read cf p (from_l l) = ALink l"
  shows "trace_back_js cf p (ALink l) acc = (None :: ('e js_failure + Link list) option)"
proof (rule ccontr)
  assume "trace_back_js cf p (ALink l) acc \<noteq> (None :: ('e js_failure + Link list) option)"
  then obtain r :: "'e js_failure + Link list" where "trace_back_js cf p (ALink l) acc = Some r"
    by auto
  from trace_back_js_cycle_aux [OF this assms] show False by simp
qed

lemma trace_back_js_into_cycle:
  assumes "cameFrom_read cf p n = ALink l1" and "cameFrom_read cf p (from_l l1) = ALink l2"
    and "cameFrom_read cf p (from_l l2) = ALink l2"
  shows "trace_back_js cf p (cameFrom_read cf p n) acc = (None :: ('e js_failure + Link list) option)"
proof -
  have "trace_back_js cf p (cameFrom_read cf p n) acc =
      (trace_back_js cf p (ALink l1) acc :: ('e js_failure + Link list) option)"
    by (simp only: assms(1))
  also have "\<dots> = trace_back_js cf p (cameFrom_read cf p (from_l l1)) (l1 # acc)"
    by (rule trace_back_js_ALink)
  also have "\<dots> = trace_back_js cf p (ALink l2) (l1 # acc)"
    by (simp only: assms(2))
  also have "\<dots> = None"
    using assms(3) by (rule trace_back_js_cycle)
  finally show ?thesis .
qed

lemma findPath_js_never_returns:
  assumes "search_loop_js A start goal (initial_js start) = Some (JsBreak best s)"
    and "trace_back_js (js_cameFrom s) (js_proto s) (cameFrom_read (js_cameFrom s) (js_proto s) best) [] =
      (None :: ('e js_failure + Link list) option)"
  shows "findPath_js A start goal = (None :: ('e js_failure + JsPath) option)"
  using assms by (simp add: findPath_js_def)

text \<open>
  C9, as amended: when the links returned by the expander only mention nodes of a
  finite set, and neither the start nor a node of that set is named \<open>__proto__\<close>, the
  loop of \<open>findPath\<close> terminates (it returns, throws or breaks out with the goal
  selected); and \<open>findPath\<close> itself terminates when moreover the \<open>from\<close> field of
  every link is the queried node and no link from a node to itself has a negative
  cost.
\<close>

theorem findPath_js_terminates:
  fixes A :: "'e AStar"
  assumes "finite N" and "links_within A N" and "''__proto__'' \<notin> N" and "start \<noteq> ''__proto__''"
  shows "(\<exists>r. search_loop_js A start goal (initial_js start) = Some r \<and> r \<noteq> JsThrow Unmodelled) \<and>
         (links_from_queried A \<and> no_negative_self_link A \<longrightarrow>
            (\<exists>x. findPath_js A start goal = Some x \<and> x \<noteq> Inl Unmodelled))"
proof -
  have sn: "settable_nodes A start"
    unfolding settable_nodes_def
  proof (intro conjI allI impI)
    show "start \<noteq> ''__proto__''" by (rule assms(4))
    fix n l
    assume "out_link A n l"
    with assms(2) have "to_l l \<in> N" by (simp add: links_within_def)
    with assms(3) show "to_l l \<noteq> ''__proto__''" by auto
  qed
  from search_loop_js_terminates [OF assms(1,2) sn] findPath_js_returns [OF assms(1,2) sn]
  show ?thesis by blast
qed

lemma diamond_within:
  "links_within (new_AStar (graph_links diamond_graph) h) {''a'', ''b'', ''c'', ''d''}"
  by (rule links_within_graph_links) (simp add: diamond_graph_def mk_link_def)

theorem findPath_js_terminates_witness:
  "finite {''a'', ''b'', ''c'', ''d''} \<and>
   links_within (new_AStar (graph_links diamond_graph) None) {''a'', ''b'', ''c'', ''d''} \<and>
   ''__proto__'' \<notin> {''a'', ''b'', ''c'', ''d''} \<and> ''a'' \<noteq> ''__proto__'' \<and>
   links_from_queried (new_AStar (graph_links diamond_graph) None) \<and>
   no_negative_self_link (new_AStar (graph_links diamond_graph) None) \<and>
   (\<exists>r. search_loop_js (new_AStar (graph_links diamond_graph) None) ''a'' ''d'' (initial_js ''a'') =
      Some r \<and> r \<noteq> JsThrow Unmodelled) \<and>
   (\<exists>x. findPath_js (new_AStar (graph_links diamond_graph) None) ''a'' ''d'' = Some x \<and>
      x \<noteq> Inl Unmodelled)"
proof -
  let ?A = "new_AStar (graph_links diamond_graph) None :: unit AStar"
  have 1: "finite {''a'', ''b'', ''c'', ''d''}" by simp
  have 2: "''__proto__'' \<notin> {''a'', ''b'', ''c'', ''d''}" by simp
  have 3: "''a'' \<noteq> ''__proto__''" by simp
  have 4: "links_from_queried ?A" by (rule links_from_queried_graph_links)
  have 5: "no_negative_self_link ?A"
    by (rule no_negative_self_link_graph_links) (simp add: diamond_graph_def mk_link_def)
  note t = findPath_js_terminates [OF 1 diamond_within 2 3, where goal = "''d''"]
  from t have 6: "\<exists>r. search_loop_js ?A ''a'' ''d'' (initial_js ''a'') = Some r \<and>
      r \<noteq> JsThrow Unmodelled"
    by (rule conjunct1)
  from t 4 5 have 7: "\<exists>x. findPath_js ?A ''a'' ''d'' = Some x \<and> x \<noteq> Inl Unmodelled"
    by (simp only: simp_thms)
  show ?thesis
    by (intro conjI 1 diamond_within 2 3 4 5 6 7)
qed

lemma misleading_plain: "plain_nodes (new_AStar misleading_links None) ''a''"
  by (auto simp: plain_nodes_def plain_key_def out_link_def new_AStar_def misleading_links_def
      mk_link_def split: if_splits)

lemma misleading_within: "links_within (new_AStar misleading_links None) {''a'', ''b''}"
  by (auto simp: links_within_def out_link_def new_AStar_def misleading_links_def mk_link_def
      split: if_splits)

lemma misleading_loop_js:
  "search_loop_js (new_AStar misleading_links None) ''a'' ''b'' (initial_js ''a'') =
     Some (JsBreak ''b'' (js_of_state misleading_state))"
proof -
  have "search_loop (new_AStar misleading_links None) ''a'' ''b'' (initial_state ''a'') =
      Some (Break ''b'' misleading_state)"
    by (simp add: search_loop_Next [OF misleading_step] search_loop_Break [OF misleading_break])
  moreover from misleading_plain
  have "\<forall>n l. out_link (new_AStar misleading_links None) n l \<longrightarrow> plain_key (to_l l)"
    by (simp add: plain_nodes_def)
  moreover note bookkeeping_initial
  moreover have "plain_state (initial_state ''a'')"
    by (simp add: plain_state_def initial_state_def plain_key_def)
  ultimately have "search_loop_js (new_AStar misleading_links None) ''a'' ''b''
      (js_of_state (initial_state ''a'')) = Some (js_of_step (Break ''b'' misleading_state))"
    by (rule search_loop_js_agrees)
  then show ?thesis by (simp add: initial_js_plain)
qed

lemma misleading_never_returns_js:
  "findPath_js (new_AStar misleading_links None) ''a'' ''b'' = None"
proof (rule findPath_js_never_returns [OF misleading_loop_js])
  have "cameFrom_read (js_cameFrom (js_of_state misleading_state))
      (js_proto (js_of_state misleading_state)) (from_l (mk_link ''b'' ''b'' 1)) =
      ALink (mk_link ''b'' ''b'' 1)"
    by (simp add: misleading_state_def mk_link_def cameFrom_read_def)
  then have "trace_back_js (js_cameFrom (js_of_state misleading_state))
      (js_proto (js_of_state misleading_state)) (ALink (mk_link ''b'' ''b'' 1)) [] =
      (None :: (unit js_failure + Link list) option)"
    by (rule trace_back_js_cycle)
  moreover have "cameFrom_read (js_cameFrom (js_of_state misleading_state))
      (js_proto (js_of_state misleading_state)) ''b'' = ALink (mk_link ''b'' ''b'' 1)"
    by (simp add: misleading_state_def mk_link_def cameFrom_read_def)
  ultimately show "trace_back_js (js_cameFrom (js_of_state misleading_state))
      (js_proto (js_of_state misleading_state))
      (cameFrom_read (js_cameFrom (js_of_state misleading_state))
         (js_proto (js_of_state misleading_state)) ''b'') [] =
      (None :: (unit js_failure + Link list) option)"
    by simp
qed

lemma graph_loop_js:
  assumes "search_loop (new_AStar (graph_links g) None) start goal (initial_state start) = Some r"
    and "plain_key start" and "\<forall>l \<in> set g. plain_key (to_l l)"
  shows "search_loop_js (new_AStar (graph_links g) None) start goal (initial_js start) =
     Some (js_of_step r)"
proof -
  from assms(3) have "\<forall>n l. out_link (new_AStar (graph_links g) None) n l \<longrightarrow> plain_key (to_l l)"
    by (simp add: out_link_graph_links)
  moreover note bookkeeping_initial
  moreover from assms(2) have "plain_state (initial_state start)"
    by (simp add: plain_state_def initial_state_def)
  ultimately have "search_loop_js (new_AStar (graph_links g) None) start goal
      (js_of_state (initial_state start)) = Some (js_of_step r)"
    by (rule search_loop_js_agrees [OF assms(1)])
  with assms(2) show ?thesis by (simp add: initial_js_plain plain_key_def)
qed

lemma inner_loop_js:
  "search_loop_js (new_AStar (graph_links inner_loop_graph) None) ''a'' ''c'' (initial_js ''a'') =
     Some (JsBreak ''c'' (js_of_state inner_loop_state))"
proof -
  have "search_loop (new_AStar (graph_links inner_loop_graph) None) ''a'' ''c'' (initial_state ''a'') =
      Some (Break ''c'' inner_loop_state)"
    by (simp add: search_loop_Next [OF inner_loop_step1] search_loop_Next [OF inner_loop_step2]
        search_loop_Break [OF inner_loop_break])
  from graph_loop_js [OF this] show ?thesis
    by (simp add: plain_key_def inner_loop_graph_def mk_link_def)
qed

lemma inner_loop_never_returns_js:
  "findPath_js (new_AStar (graph_links inner_loop_graph) None) ''a'' ''c'' = None"
proof (rule findPath_js_never_returns [OF inner_loop_js])
  have "cameFrom_read (js_cameFrom (js_of_state inner_loop_state))
      (js_proto (js_of_state inner_loop_state)) ''c'' = ALink (mk_link ''b'' ''c'' 1)"
    "cameFrom_read (js_cameFrom (js_of_state inner_loop_state))
      (js_proto (js_of_state inner_loop_state)) (from_l (mk_link ''b'' ''c'' 1)) =
      ALink (mk_link ''b'' ''b'' (- 1))"
    "cameFrom_read (js_cameFrom (js_of_state inner_loop_state))
      (js_proto (js_of_state inner_loop_state)) (from_l (mk_link ''b'' ''b'' (- 1))) =
      ALink (mk_link ''b'' ''b'' (- 1))"
    by (simp_all add: inner_loop_state_def mk_link_def cameFrom_read_def)
  then show "trace_back_js (js_cameFrom (js_of_state inner_loop_state))
      (js_proto (js_of_state inner_loop_state))
      (cameFrom_read (js_cameFrom (js_of_state inner_loop_state))
         (js_proto (js_of_state inner_loop_state)) ''c'') [] =
      (None :: (unit js_failure + Link list) option)"
    by (rule trace_back_js_into_cycle)
qed

text \<open>
  C9 as stated fails: without these two conditions \<open>findPath\<close> may never return, on a
  graph of two or three nodes. The loop ends with the goal selected, and the walk back
  from the goal goes round a cycle of \<open>cameFrom\<close>.
\<close>

theorem findPath_js_terminates_counterexample:
  "finite {''a'', ''b''} \<and> links_within (new_AStar misleading_links None) {''a'', ''b''} \<and>
   findPath_js (new_AStar misleading_links None) ''a'' ''b'' = None \<and>
   finite {''a'', ''b'', ''c''} \<and>
   links_within (new_AStar (graph_links inner_loop_graph) None) {''a'', ''b'', ''c''} \<and>
   links_from_queried (new_AStar (graph_links inner_loop_graph) None) \<and>
   findPath_js (new_AStar (graph_links inner_loop_graph) None) ''a'' ''c'' = None"
proof -
  have "links_within (new_AStar (graph_links inner_loop_graph) None) {''a'', ''b'', ''c''}"
    by (rule links_within_graph_links) (simp add: inner_loop_graph_def mk_link_def)
  then show ?thesis
    by (intro conjI misleading_within misleading_never_returns_js inner_loop_never_returns_js
      links_from_queried_graph_links) simp_all
qed

section \<open>Defined entries and chains of \<open>cameFrom\<close>, on objects\<close>

text \<open>
  C10, as amended: when no node is named \<open>__proto__\<close>, throughout every execution of
  \<open>findPath\<close> every node of the open set has entries in \<open>linkCosts\<close>, \<open>totalCosts\<close>
  and \<open>cameFrom\<close>; and provided the expander only returns links whose \<open>from\<close> field
  is the queried node, and no link from a node to itself has a negative cost, the
  chain of \<open>cameFrom\<close> followed backward from any reached node consists of defined
  entries and ends at the \<open>null\<close> entry of the start, so the path reconstruction
  reads no missing entry and terminates.
\<close>

theorem js_entries_defined_and_chains_end:
  fixes A :: "'e AStar"
  assumes "visited_js A start goal s" and "settable_nodes A start"
  shows "set (js_open s) \<subseteq> dom (js_linkCosts s) \<inter> dom (js_totalCosts s) \<inter> dom (js_cameFrom s) \<and>
    (links_from_queried A \<and> no_negative_self_link A \<longrightarrow>
       (\<forall>n \<in> dom (js_cameFrom s). \<exists>ls. chain_to_start (js_cameFrom s) start n ls \<and>
           trace_back_js (js_cameFrom s) (js_proto s)
               (cameFrom_read (js_cameFrom s) (js_proto s) n) [] =
             (Some (Inr ls) :: ('e js_failure + Link list) option)))"
proof (intro conjI impI ballI)
  from visited_of_visited_js [OF assms(2,1)] obtain t where
    t: "s = js_of_state t" "visited A start goal t" by blast
  from visited_bookkeeping [OF t(2)] t(1)
  show "set (js_open s) \<subseteq> dom (js_linkCosts s) \<inter> dom (js_totalCosts s) \<inter> dom (js_cameFrom s)"
    by (auto simp: bookkeeping_def)
  fix n
  assume c: "links_from_queried A \<and> no_negative_self_link A" and n: "n \<in> dom (js_cameFrom s)"
  from n t(1) have "n \<in> dom (cameFrom t)" by simp
  with visited_trace_back [OF t(2)] c obtain ls where
    "chain_to_start (cameFrom t) start n ls" by blast
  with chain_trace_back_js [of "cameFrom t" start n ls ObjectProto "[]"] t(1)
  show "\<exists>ls. chain_to_start (js_cameFrom s) start n ls \<and>
           trace_back_js (js_cameFrom s) (js_proto s)
               (cameFrom_read (js_cameFrom s) (js_proto s) n) [] =
             (Some (Inr ls) :: ('e js_failure + Link list) option)"
    by auto
qed

lemma one_link_step_js:
  "iteration_js (new_AStar (graph_links one_link_graph) None) ''a'' ''b'' (initial_js ''a'') =
     JsNext (js_of_state one_link_state)"
  by (simp add: eval_js_defs one_link_graph_def one_link_state_def js_of_state_def)

theorem js_entries_defined_and_chains_end_witness:
  "visited_js (new_AStar (graph_links one_link_graph) None) ''a'' ''b'' (js_of_state one_link_state) \<and>
   settable_nodes (new_AStar (graph_links one_link_graph) None) ''a'' \<and>
   links_from_queried (new_AStar (graph_links one_link_graph) None) \<and>
   no_negative_self_link (new_AStar (graph_links one_link_graph) None) \<and>
   ''b'' \<in> dom (js_cameFrom (js_of_state one_link_state)) \<and>
   set (js_open (js_of_state one_link_state)) \<subseteq>
     dom (js_linkCosts (js_of_state one_link_state)) \<inter>
     dom (js_totalCosts (js_of_state one_link_state)) \<inter>
     dom (js_cameFrom (js_of_state one_link_state)) \<and>
   (\<exists>ls. chain_to_start (js_cameFrom (js_of_state one_link_state)) ''a'' ''b'' ls \<and>
      trace_back_js (js_cameFrom (js_of_state one_link_state)) (js_proto (js_of_state one_link_state))
          (cameFrom_read (js_cameFrom (js_of_state one_link_state))
             (js_proto (js_of_state one_link_state)) ''b'') [] =
        (Some (Inr ls) :: (unit js_failure + Link list) option))"
proof -
  let ?A = "new_AStar (graph_links one_link_graph) None :: unit AStar"
  have 1: "visited_js ?A ''a'' ''b'' (js_of_state one_link_state)"
    by (rule visited_js_next [OF visited_js_initial one_link_step_js])
  have 2: "settable_nodes ?A ''a''"
    by (rule settable_nodes_graph_links) (simp_all add: one_link_graph_def mk_link_def)
  have 3: "links_from_queried ?A" by (rule links_from_queried_graph_links)
  have 4: "no_negative_self_link ?A"
    by (rule no_negative_self_link_graph_links) (simp add: one_link_graph_def mk_link_def)
  have 5: "''b'' \<in> dom (js_cameFrom (js_of_state one_link_state))"
    by (simp add: one_link_state_def)
  note t = js_entries_defined_and_chains_end [OF 1 2]
  from t have 6: "set (js_open (js_of_state one_link_state)) \<subseteq>
     dom (js_linkCosts (js_of_state one_link_state)) \<inter>
     dom (js_totalCosts (js_of_state one_link_state)) \<inter>
     dom (js_cameFrom (js_of_state one_link_state))"
    by (rule conjunct1)
  note 7 = bspec [OF mp [OF conjunct2 [OF t] conjI [OF 3 4]] 5]
  show ?thesis
    by (intro conjI 1 2 3 4 5 6 7)
qed

lemma start_loop_step_js:
  "iteration_js (new_AStar (graph_links start_loop_graph) None) ''a'' ''b'' (initial_js ''a'') =
     JsNext (js_of_state start_loop_state)"
  by (simp add: eval_js_defs start_loop_graph_def start_loop_state_def js_of_state_def)

lemma start_loop_break_js:
  "iteration_js (new_AStar (graph_links start_loop_graph) None) ''a'' ''b''
     (js_of_state start_loop_state) = JsBreak ''b'' (js_of_state start_loop_state)"
  by (simp add: iteration_js_def start_loop_state_def js_less_def)

lemma proto_goal_step:
  "iteration_js (new_AStar (graph_links proto_goal_graph) None) ''a'' ''g'' (initial_js ''a'') =
     JsNext proto_goal_state"
  by (simp add: eval_js_defs proto_goal_graph_def proto_goal_state_def)

text \<open>
  C10 as stated fails in both halves. With a link of negative cost from the start to
  itself, the chain of the reached node \<open>b\<close> never ends, although every \<open>from\<close> field
  is the queried node. And an open node named \<open>__proto__\<close> has no entry in any of the
  three dictionaries.
\<close>

theorem js_entries_defined_and_chains_end_counterexample:
  "links_from_queried (new_AStar (graph_links start_loop_graph) None) \<and>
   visited_js (new_AStar (graph_links start_loop_graph) None) ''a'' ''b'' (js_of_state start_loop_state) \<and>
   ''b'' \<in> dom (js_cameFrom (js_of_state start_loop_state)) \<and>
   trace_back_js (js_cameFrom (js_of_state start_loop_state)) (js_proto (js_of_state start_loop_state))
       (cameFrom_read (js_cameFrom (js_of_state start_loop_state))
          (js_proto (js_of_state start_loop_state)) ''b'') [] =
     (None :: (unit js_failure + Link list) option) \<and>
   findPath_js (new_AStar (graph_links start_loop_graph) None) ''a'' ''b'' = None \<and>
   visited_js (new_AStar (graph_links proto_goal_graph) None) ''a'' ''g'' proto_goal_state \<and>
   ''__proto__'' \<in> set (js_open proto_goal_state) \<and>
   js_linkCosts proto_goal_state ''__proto__'' = None \<and>
   js_totalCosts proto_goal_state ''__proto__'' = None \<and>
   js_cameFrom proto_goal_state ''__proto__'' = None"
proof -
  let ?A = "new_AStar (graph_links start_loop_graph) None :: unit AStar"
  let ?s = "js_of_state start_loop_state"
  have 1: "visited_js ?A ''a'' ''b'' ?s"
    by (rule visited_js_next [OF visited_js_initial start_loop_step_js])
  have 2: "trace_back_js (js_cameFrom ?s) (js_proto ?s)
       (cameFrom_read (js_cameFrom ?s) (js_proto ?s) ''b'') [] =
     (None :: (unit js_failure + Link list) option)"
  proof -
    have "cameFrom_read (js_cameFrom ?s) (js_proto ?s) ''b'' = ALink (mk_link ''a'' ''b'' 1)"
      "cameFrom_read (js_cameFrom ?s) (js_proto ?s) (from_l (mk_link ''a'' ''b'' 1)) =
        ALink (mk_link ''a'' ''a'' (- 1))"
      "cameFrom_read (js_cameFrom ?s) (js_proto ?s) (from_l (mk_link ''a'' ''a'' (- 1))) =
        ALink (mk_link ''a'' ''a'' (- 1))"
      by (simp_all add: start_loop_state_def mk_link_def cameFrom_read_def)
    then show ?thesis
      by (rule trace_back_js_into_cycle)
  qed
  have "search_loop_js ?A ''a'' ''b'' (initial_js ''a'') = Some (JsBreak ''b'' ?s)"
    by (simp add: search_loop_js_Next [OF start_loop_step_js]
        search_loop_js_stop [OF start_loop_break_js])
  from findPath_js_never_returns [OF this 2] have 3: "findPath_js ?A ''a'' ''b'' = None" .
  have 4: "''b'' \<in> dom (js_cameFrom ?s)" by (simp add: start_loop_state_def)
  have 5: "visited_js (new_AStar (graph_links proto_goal_graph) None) ''a'' ''g'' proto_goal_state"
    by (rule visited_js_next [OF visited_js_initial proto_goal_step])
  have 6: "''__proto__'' \<in> set (js_open proto_goal_state)"
    "js_linkCosts proto_goal_state ''__proto__'' = None"
    "js_totalCosts proto_goal_state ''__proto__'' = None"
    "js_cameFrom proto_goal_state ''__proto__'' = None"
    by (simp_all add: proto_goal_state_def)
  show ?thesis
    by (intro conjI 1 2 3 4 5 6 links_from_queried_graph_links)
qed


end
